theory Spec2Isabelle
  imports Main "HOL-Library.Word"
begin

section \<open>Data model of \<^verbatim>\<open>game_of_life.c\<close>\<close>

text \<open>
  The two structs of the program. A \<^verbatim>\<open>Neighbour\<close> is an offset to one of the eight
  neighbouring cells; a \<^verbatim>\<open>Cell\<close> holds the marker of the current generation and the
  marker computed for the next one. A C \<^verbatim>\<open>char\<close> is modelled by \<^typ>\<open>char\<close> (one byte)
  and \<^verbatim>\<open>size_t\<close> by a 64-bit word, so that the sum of an index and a negative offset
  wraps around exactly as it does in the program. The \<^verbatim>\<open>int\<close> counters of
  \<^verbatim>\<open>checkConfigFile\<close> are 32-bit words (\<open>c_int\<close>).
\<close>

record Neighbour =
  offset_y :: int
  offset_x :: int

record Cell =
  current_value :: char
  new_value :: char

type_synonym size_t = "64 word"

type_synonym c_int = "32 word"

type_synonym board = "Cell list list"

section \<open>The configuration file as a stream\<close>

text \<open>
  The kinds of failure of the start-up sequence. The program reports each by a message and
  the return value \<^verbatim>\<open>ERROR\<close>; the constructors name the three messages of
  \<^verbatim>\<open>checkConfigFile\<close> (\<^verbatim>\<open>ERROR_NO_FILE\<close>, ``Inconsistent column count detected'',
  ``Invalid char ... detected''). \<open>EmptyInput\<close> is the kind the specification names for
  an input of zero characters; the program has no message for it.
\<close>

datatype config_error =
  FileNotFound | InconsistentColumnCount | InvalidCharacter char | EmptyInput

text \<open>
  A \<^verbatim>\<open>FILE\<close> opened for reading: the bytes of the file, the bytes after the read
  position, and the end-of-file indicator, which only a read at the end of the file sets.
\<close>

record FILE =
  contents :: string
  unread :: string
  eof_indicator :: bool

definition EOF :: int where
  "EOF = - 1"

text \<open>\<^verbatim>\<open>fopen\<close> of a path: the argument is the file the path names, \<open>None\<close> if there is none.\<close>

definition fopen :: "string option \<Rightarrow> FILE option" where
  "fopen file =
     (case file of
        None \<Rightarrow> None
      | Some bytes \<Rightarrow> Some \<lparr>contents = bytes, unread = bytes, eof_indicator = False\<rparr>)"

definition fgetc :: "FILE \<Rightarrow> int \<times> FILE" where
  "fgetc f =
     (case unread f of
        [] \<Rightarrow> (EOF, f\<lparr>eof_indicator := True\<rparr>)
      | c # cs \<Rightarrow> (of_char c, f\<lparr>unread := cs\<rparr>))"

definition feof :: "FILE \<Rightarrow> bool" where
  "feof f = eof_indicator f"

definition rewind :: "FILE \<Rightarrow> FILE" where
  "rewind f = f\<lparr>unread := contents f, eof_indicator := False\<rparr>"

text \<open>
  The program stores the \<^verbatim>\<open>int\<close> that \<^verbatim>\<open>fgetc\<close> returns in a \<^verbatim>\<open>char\<close>
  (\<open>int_to_char\<close> keeps the low eight bits) and compares that \<^verbatim>\<open>char\<close> with \<^verbatim>\<open>int\<close>
  constants, which promotes it to \<^verbatim>\<open>int\<close> again (\<open>char_to_int\<close>). The type \<^verbatim>\<open>char\<close> is
  taken to be signed, as it is on the x86 platforms the program runs on: with an unsigned
  \<^verbatim>\<open>char\<close> the test \<^verbatim>\<open>current_char == EOF\<close> could never hold and every file would be
  refused at its end.
\<close>

definition int_to_char :: "int \<Rightarrow> char" where
  "int_to_char i = char_of i"

definition char_to_int :: "char \<Rightarrow> int" where
  "char_to_int c = (if of_char c < (128 :: int) then of_char c else of_char c - 256)"

lemma of_char_int_range: "0 \<le> (of_char c :: int) \<and> (of_char c :: int) < 256"
proof -
  have "(of_char c :: int) mod 256 = of_char c" by simp
  moreover have "0 \<le> (of_char c :: int) mod 256" "(of_char c :: int) mod 256 < 256"
    by (rule pos_mod_sign, simp) (rule pos_mod_bound, simp)
  ultimately show ?thesis by simp
qed

lemma char_to_int_inj [simp]: "char_to_int c = char_to_int d \<longleftrightarrow> c = d"
proof
  assume e: "char_to_int c = char_to_int d"
  have "(of_char c :: int) = of_char d"
    using e of_char_int_range [of c] of_char_int_range [of d]
    by (simp add: char_to_int_def split: if_splits)
  then show "c = d" by simp
qed simp

lemma of_char_0xFF: "(of_char (CHR 0xFF) :: int) = 255"
  by simp

lemma char_to_int_EOF [simp]: "char_to_int c = EOF \<longleftrightarrow> c = CHR 0xFF"
proof
  assume e: "char_to_int c = EOF"
  have "(of_char c :: int) = of_char (CHR 0xFF)"
    using e of_char_int_range [of c] unfolding of_char_0xFF
    by (simp add: char_to_int_def EOF_def split: if_splits)
  then show "c = CHR 0xFF" by (simp only: of_char_eq_iff)
next
  assume "c = CHR 0xFF"
  then show "char_to_int c = EOF" by (simp add: char_to_int_def EOF_def)
qed

lemma int_to_char_of_char [simp]: "int_to_char (of_char c) = c"
  by (simp add: int_to_char_def)

lemma int_to_char_EOF [simp]: "int_to_char EOF = CHR 0xFF"
  by (simp add: int_to_char_def EOF_def) code_simp

lemma fgetc_progress:
  "int_to_char (fst (fgetc f)) \<noteq> CHR 0xFF \<Longrightarrow>
     length (unread (snd (fgetc f))) < length (unread f)"
  by (cases "unread f") (simp_all add: fgetc_def)

section \<open>\<^verbatim>\<open>checkConfigFile\<close>\<close>

text \<open>
  The \<^verbatim>\<open>while (!feof(*config_file))\<close> loop of lines 126 to 159, with the three counters
  as arguments. An error return is \<open>Inl\<close>; leaving the loop (by \<^verbatim>\<open>break\<close> or by the loop
  condition) is \<open>Inr\<close> with the stream and the counters the code after the loop uses. The
  counters are C \<^verbatim>\<open>int\<close>s of 32 bits. They count the bytes of a line and the lines, so
  they stay below \<open>2^31\<close> while fewer than \<open>2^31\<close> bytes have been read. Beyond that the
  increment overflows, which C leaves undefined; the model wraps around, as the two's
  complement addition does that compilers emit for it on x86.
\<close>

function checkConfigFile_loop ::
  "FILE \<Rightarrow> c_int \<Rightarrow> c_int \<Rightarrow> c_int \<Rightarrow> config_error + (FILE \<times> c_int \<times> c_int)" where
  "checkConfigFile_loop config_file last_column_count current_column_count row_count =
     (if feof config_file then Inr (config_file, last_column_count, row_count)
      else
        let current_char = int_to_char (fst (fgetc config_file));
            config_file' = snd (fgetc config_file);
            current_column_count' = current_column_count + 1
        in if char_to_int current_char = char_to_int (CHR 0x0A) then
             let last_column_count' =
                   (if last_column_count = 0 then current_column_count' else last_column_count)
             in if last_column_count' \<noteq> current_column_count'
                then Inl InconsistentColumnCount
                else checkConfigFile_loop config_file' last_column_count' 0 (row_count + 1)
           else if char_to_int current_char = EOF then
             if last_column_count \<noteq> current_column_count'
             then Inl InconsistentColumnCount
             else Inr (config_file', last_column_count, row_count)
           else if char_to_int current_char \<noteq> char_to_int (CHR ''.'') \<and>
                   char_to_int current_char \<noteq> char_to_int (CHR ''#'')
           then Inl (InvalidCharacter current_char)
           else checkConfigFile_loop config_file' last_column_count current_column_count' row_count)"
  by pat_completeness auto
termination
  by (relation "measure (\<lambda>(f, _, _, _). length (unread f))")
     (auto intro: fgetc_progress)

declare checkConfigFile_loop.simps [simp del]

text \<open>
  The whole function: the result is the open stream and the two \<^verbatim>\<open>uint8_t\<close> outputs
  \<^verbatim>\<open>*board_height\<close> and \<^verbatim>\<open>*board_width\<close>. The assignments of lines 161 and 162 narrow
  an \<^verbatim>\<open>int\<close> to eight bits: the conversion to \<^verbatim>\<open>uint8_t\<close> keeps the value modulo 256,
  which is the low byte (\<open>ucast\<close>).
\<close>

definition checkConfigFile ::
  "string option \<Rightarrow> config_error + (FILE \<times> 8 word \<times> 8 word)" where
  "checkConfigFile file =
     (case fopen file of
        None \<Rightarrow> Inl FileNotFound
      | Some config_file \<Rightarrow>
          (case checkConfigFile_loop config_file 0 0 0 of
             Inl e \<Rightarrow> Inl e
           | Inr (config_file', last_column_count, row_count) \<Rightarrow>
               Inr (config_file', ucast (row_count + 1), ucast (last_column_count - 1))))"

section \<open>\<^verbatim>\<open>fillBoard\<close>\<close>

text \<open>
  The board \<^verbatim>\<open>calloc\<close> returns is zeroed. Allocation is taken to succeed (also for a
  request of zero elements, for which glibc returns memory), so \<^verbatim>\<open>fillBoard\<close> returns
  \<^verbatim>\<open>OK\<close> and the model returns the board.
\<close>

definition calloc_board :: "nat \<Rightarrow> nat \<Rightarrow> board" where
  "calloc_board board_height board_width =
     replicate board_height
       (replicate board_width \<lparr>current_value = CHR 0x00, new_value = CHR 0x00\<rparr>)"

text \<open>The body of the loop over \<^verbatim>\<open>column\<close>: one byte is read and stored in both fields.\<close>

definition fillBoard_cell :: "nat \<Rightarrow> nat \<Rightarrow> FILE \<times> board \<Rightarrow> FILE \<times> board" where
  "fillBoard_cell row column s =
     (let config_file = fst s; board = snd s;
          current_char = int_to_char (fst (fgetc config_file))
      in (snd (fgetc config_file),
          board[row := (board ! row)[column := (board ! row ! column)
            \<lparr>current_value := current_char, new_value := current_char\<rparr>]]))"

text \<open>The body of the loop over \<^verbatim>\<open>row\<close>: the columns, then one more byte is read and dropped.\<close>

definition fillBoard_row :: "nat \<Rightarrow> nat \<Rightarrow> FILE \<times> board \<Rightarrow> FILE \<times> board" where
  "fillBoard_row board_width row s =
     (let s' = fold (fillBoard_cell row) [0..<board_width] s
      in (snd (fgetc (fst s')), snd s'))"

text \<open>
  The counters \<^verbatim>\<open>row\<close> and \<^verbatim>\<open>column\<close> are \<^verbatim>\<open>uint8_t\<close> and stay below the \<^verbatim>\<open>uint8_t\<close>
  bounds, so they do not wrap.
\<close>

definition fillBoard :: "FILE \<Rightarrow> 8 word \<Rightarrow> 8 word \<Rightarrow> board" where
  "fillBoard config_file board_height board_width =
     snd (fold (fillBoard_row (unat board_width)) [0..<unat board_height]
            (rewind config_file, calloc_board (unat board_height) (unat board_width)))"

text \<open>
  The start-up sequence of \<^verbatim>\<open>run\<close> (lines 330 to 337) after the command line is read:
  the file is checked, then the board is filled from it.
\<close>

definition run_setup :: "string option \<Rightarrow> config_error + (8 word \<times> 8 word \<times> board)" where
  "run_setup file =
     (case checkConfigFile file of
        Inl e \<Rightarrow> Inl e
      | Inr (config_file, board_height, board_width) \<Rightarrow>
          Inr (board_height, board_width, fillBoard config_file board_height board_width))"

section \<open>\<^verbatim>\<open>updateBoard\<close>\<close>

text \<open>The local table \<^verbatim>\<open>neighbour[8]\<close> of \<^verbatim>\<open>updateBoard\<close>, in the order of the source.\<close>

definition neighbour :: "Neighbour list" where
  "neighbour =
     [\<lparr>offset_y = -1, offset_x = -1\<rparr>, \<lparr>offset_y = -1, offset_x = 0\<rparr>,
      \<lparr>offset_y = -1, offset_x = 1\<rparr>, \<lparr>offset_y = 0, offset_x = -1\<rparr>,
      \<lparr>offset_y = 0, offset_x = 1\<rparr>, \<lparr>offset_y = 1, offset_x = -1\<rparr>,
      \<lparr>offset_y = 1, offset_x = 0\<rparr>, \<lparr>offset_y = 1, offset_x = 1\<rparr>]"

text \<open>
  One pass of the loop over \<^verbatim>\<open>count\<close>. The loop counters \<^verbatim>\<open>row\<close> and \<^verbatim>\<open>column\<close> never
  leave the range of \<^verbatim>\<open>size_t\<close>, so they are natural numbers here and are converted where
  the program computes with them: \<^verbatim>\<open>row + neighbour[count].offset_y\<close> converts the
  \<^verbatim>\<open>int\<close> offset to \<^verbatim>\<open>size_t\<close> and adds modulo \<open>2^64\<close>, and the comparison converts
  \<^verbatim>\<open>board_height\<close> to \<^verbatim>\<open>size_t\<close> as well.
\<close>

definition count_neighbour ::
  "board \<Rightarrow> int \<Rightarrow> int \<Rightarrow> nat \<Rightarrow> nat \<Rightarrow> Neighbour \<Rightarrow> nat \<Rightarrow> nat" where
  "count_neighbour board board_height board_width row column nb neighbour_count =
     (let y = (of_nat row :: size_t) + word_of_int (offset_y nb);
          x = (of_nat column :: size_t) + word_of_int (offset_x nb)
      in if y \<ge> word_of_int board_height \<or> x \<ge> word_of_int board_width
         then neighbour_count
         else if current_value (board ! unat y ! unat x) = CHR ''#''
         then neighbour_count + 1
         else neighbour_count)"

text \<open>The value of \<^verbatim>\<open>neighbour_count\<close> after the loop over the eight neighbours.\<close>

definition neighbour_count :: "board \<Rightarrow> int \<Rightarrow> int \<Rightarrow> nat \<Rightarrow> nat \<Rightarrow> nat" where
  "neighbour_count board board_height board_width row column =
     fold (count_neighbour board board_height board_width row column) neighbour 0"

text \<open>The three-way decision of lines 242 to 255.\<close>

definition next_value :: "char \<Rightarrow> nat \<Rightarrow> char" where
  "next_value v n =
     (if v = CHR ''#'' \<and> (n = 2 \<or> n = 3) then CHR ''#''
      else if v = CHR ''.'' \<and> n = 3 then CHR ''#''
      else CHR ''.'')"

text \<open>
  The body of the first pair of loops: it writes \<^verbatim>\<open>new_value\<close> of one cell of the board,
  in place. The board it reads is the board as the earlier passes left it.
\<close>

definition update_cell :: "int \<Rightarrow> int \<Rightarrow> nat \<Rightarrow> nat \<Rightarrow> board \<Rightarrow> board" where
  "update_cell board_height board_width row column board =
     board[row := (board ! row)[column := (board ! row ! column)
       \<lparr>new_value := next_value (current_value (board ! row ! column))
          (neighbour_count board board_height board_width row column)\<rparr>]]"

text \<open>The body of the second pair of loops (``Persist values'').\<close>

definition persist_cell :: "nat \<Rightarrow> nat \<Rightarrow> board \<Rightarrow> board" where
  "persist_cell row column board =
     board[row := (board ! row)[column := (board ! row ! column)
       \<lparr>current_value := new_value (board ! row ! column)\<rparr>]]"

text \<open>
  The loop bounds: \<^verbatim>\<open>row < board_height\<close> compares a \<^verbatim>\<open>size_t\<close> with an \<^verbatim>\<open>int\<close>, so the
  bound is the height converted to \<^verbatim>\<open>size_t\<close>.
\<close>

definition loop_range :: "int \<Rightarrow> nat list" where
  "loop_range bound = [0..<unat (word_of_int bound :: size_t)]"

definition compute_new_values :: "board \<Rightarrow> int \<Rightarrow> int \<Rightarrow> board" where
  "compute_new_values board board_height board_width =
     fold (\<lambda>row. fold (update_cell board_height board_width row) (loop_range board_width))
       (loop_range board_height) board"

definition persist_values :: "board \<Rightarrow> int \<Rightarrow> int \<Rightarrow> board" where
  "persist_values board board_height board_width =
     fold (\<lambda>row. fold (persist_cell row) (loop_range board_width))
       (loop_range board_height) board"

definition updateBoard :: "board \<Rightarrow> int \<Rightarrow> int \<Rightarrow> board" where
  "updateBoard board board_height board_width =
     persist_values (compute_new_values board board_height board_width)
       board_height board_width"

section \<open>The specification's notions\<close>

text \<open>
  The definitions of this section follow the words of the specification, not the code; the
  theorems compare them with the code. A position is on the board when it lies in
  \<open>[0, height) \<times> [0, width)\<close>; the neighbours of a cell are the positions at the eight
  offsets that are on the board; a cell is alive when it holds the marker \<open>#\<close>.
\<close>

definition in_board :: "int \<Rightarrow> int \<Rightarrow> int \<Rightarrow> int \<Rightarrow> bool" where
  "in_board h w y x = (0 \<le> y \<and> y < h \<and> 0 \<le> x \<and> x < w)"

definition spec_offsets :: "(int \<times> int) list" where
  "spec_offsets = [(-1, -1), (-1, 0), (-1, 1), (0, -1), (0, 1), (1, -1), (1, 0), (1, 1)]"

definition spec_neighbours :: "int \<Rightarrow> int \<Rightarrow> nat \<Rightarrow> nat \<Rightarrow> (int \<times> int) list" where
  "spec_neighbours h w r c =
     filter (\<lambda>(y, x). in_board h w y x)
       (map (\<lambda>(dy, dx). (int r + dy, int c + dx)) spec_offsets)"

definition spec_live_neighbours :: "board \<Rightarrow> int \<Rightarrow> int \<Rightarrow> nat \<Rightarrow> nat \<Rightarrow> nat" where
  "spec_live_neighbours board h w r c =
     length (filter (\<lambda>(y, x). current_value (board ! nat y ! nat x) = CHR ''#'')
       (spec_neighbours h w r c))"

definition is_alive :: "Cell \<Rightarrow> bool" where
  "is_alive cell = (current_value cell = CHR ''#'')"

text \<open>The standard rule: whether a cell is alive in the next generation.\<close>

definition spec_rule :: "bool \<Rightarrow> nat \<Rightarrow> bool" where
  "spec_rule alive n = (if alive then n = 2 \<or> n = 3 else n = 3)"

text \<open>The cell at \<open>(r, c)\<close> after one synchronous step, and the board after it.\<close>

definition spec_cell :: "board \<Rightarrow> int \<Rightarrow> int \<Rightarrow> nat \<Rightarrow> nat \<Rightarrow> Cell" where
  "spec_cell b h w r c =
     (let v = next_value (current_value (b ! r ! c)) (spec_live_neighbours b h w r c)
      in \<lparr>current_value = v, new_value = v\<rparr>)"

definition spec_step :: "board \<Rightarrow> int \<Rightarrow> int \<Rightarrow> board" where
  "spec_step b h w = map (\<lambda>r. map (spec_cell b h w r) [0..<nat w]) [0..<nat h]"

text \<open>
  A board of the given height and width: the dimensions are those of an \<^verbatim>\<open>int\<close>, every
  row is there and has \<open>width\<close> cells. \<^verbatim>\<open>updateBoard\<close> indexes the board without a check of
  its own, and an access outside the allocated rows is undefined in C; the theorems about
  \<^verbatim>\<open>updateBoard\<close> are therefore stated for boards of the dimensions passed, which is what
  \<^verbatim>\<open>run\<close> passes (lemma \<open>fillBoard_wf\<close>). A valid board holds one of the two markers in
  every cell.
\<close>

definition wf_board :: "board \<Rightarrow> int \<Rightarrow> int \<Rightarrow> bool" where
  "wf_board board h w =
     (0 \<le> h \<and> h \<le> 2147483647 \<and> 0 \<le> w \<and> w \<le> 2147483647 \<and>
      length board = nat h \<and> list_all (\<lambda>row. length row = nat w) board)"

definition is_marker :: "char \<Rightarrow> bool" where
  "is_marker v = (v = CHR ''.'' \<or> v = CHR ''#'')"

definition valid_board :: "board \<Rightarrow> bool" where
  "valid_board board = list_all (list_all (\<lambda>cell. is_marker (current_value cell))) board"

text \<open>The two layers of a board: the current generation and the values computed for the next.\<close>

definition current_values :: "board \<Rightarrow> char list list" where
  "current_values board = map (map current_value) board"

definition new_values :: "board \<Rightarrow> char list list" where
  "new_values board = map (map new_value) board"

text \<open>
  The cell \<^verbatim>\<open>fillBoard\<close> stores for a byte, and the board whose rows are the given strings.
\<close>

definition filled :: "char \<Rightarrow> Cell" where
  "filled v = \<lparr>current_value = v, new_value = v\<rparr>"

definition board_of :: "string list \<Rightarrow> board" where
  "board_of rows = map (map filled) rows"

text \<open>
  Configuration texts. \<open>terminated_lines\<close> writes every line with a line terminator after
  it; \<open>config_text\<close> writes the lines with a terminator between them, so that the last line
  ends where the input ends. The lines are uniform when each consists of \<open>m\<close> markers.
\<close>

definition terminated_lines :: "string list \<Rightarrow> string" where
  "terminated_lines ls = concat (map (\<lambda>l. l @ [CHR 0x0A]) ls)"

fun config_text :: "string list \<Rightarrow> string" where
  "config_text [] = []"
| "config_text [l] = l"
| "config_text (l # l' # ls) = l @ CHR 0x0A # config_text (l' # ls)"

definition uniform_lines :: "nat \<Rightarrow> string list \<Rightarrow> bool" where
  "uniform_lines m ls = list_all (\<lambda>l. list_all is_marker l \<and> length l = m) ls"

text \<open>
  A stream that has not met the end of its file, and the byte a read at position \<open>p\<close>
  stores in a \<^verbatim>\<open>char\<close> (the value of \<^verbatim>\<open>EOF\<close> narrowed to a \<^verbatim>\<open>char\<close> beyond the end).
\<close>

definition stream :: "string \<Rightarrow> string \<Rightarrow> FILE" where
  "stream t u = \<lparr>contents = t, unread = u, eof_indicator = False\<rparr>"

definition byte_at :: "string \<Rightarrow> nat \<Rightarrow> char" where
  "byte_at t p = (if p < length t then t ! p else CHR 0xFF)"

text \<open>
  Auxiliary notions of the proofs: whether the position \<open>(y, x)\<close> is on the board and holds
  a live cell, as a number, and the marker that the first pair of loops of \<^verbatim>\<open>updateBoard\<close>
  computes for the cell at \<open>(r, c)\<close>.
\<close>

definition live_at :: "board \<Rightarrow> int \<Rightarrow> int \<Rightarrow> int \<Rightarrow> int \<Rightarrow> nat" where
  "live_at b h w y x =
    (if in_board h w y x \<and> current_value (b ! nat y ! nat x) = CHR ''#'' then 1 else 0)"

definition next_of :: "board \<Rightarrow> int \<Rightarrow> int \<Rightarrow> nat \<Rightarrow> nat \<Rightarrow> char" where
  "next_of b h w r c = next_value (current_value (b ! r ! c)) (neighbour_count b h w r c)"

section \<open>The neighbour count of \<^verbatim>\<open>updateBoard\<close>\<close>

lemma uint_size_t: "0 \<le> k \<Longrightarrow> k < 2^32 \<Longrightarrow> uint (word_of_int k :: size_t) = k"
  by (simp add: uint_word_of_int take_bit_int_eq_self)

lemma size_t_add: "(of_nat r :: size_t) + word_of_int d = word_of_int (int r + d)"
  by simp

lemma size_t_bound_check: "int r < h \<Longrightarrow> 0 \<le> h \<Longrightarrow> h < 2^31 \<Longrightarrow> -1 \<le> d \<Longrightarrow> d \<le> 1 \<Longrightarrow>
  ((of_nat r :: size_t) + word_of_int d \<ge> word_of_int h) = (\<not> (0 \<le> int r + d \<and> int r + d < h))"
proof -
  assume a: "int r < h" "0 \<le> h" "h < 2^31" "-1 \<le> d" "d \<le> 1"
  have uh: "uint (word_of_int h :: size_t) = h"
    using a by (intro uint_size_t) auto
  show ?thesis
  proof (cases "0 \<le> int r + d")
    case True
    have "uint (word_of_int (int r + d) :: size_t) = int r + d"
      using a True by (intro uint_size_t) auto
    then show ?thesis using True uh unfolding size_t_add word_le_def by auto
  next
    case False
    then have m: "int r + d = -1" using a by linarith
    have "(of_nat r :: size_t) + word_of_int d = - 1"
      unfolding size_t_add m by simp
    then show ?thesis using False by simp
  qed
qed

lemma size_t_index: "0 \<le> int r + d \<Longrightarrow> int r + d < 2^32 \<Longrightarrow>
  unat ((of_nat r :: size_t) + word_of_int d) = nat (int r + d)"
proof -
  assume a: "0 \<le> int r + d" "int r + d < 2^32"
  have "uint (word_of_int (int r + d) :: size_t) = int r + d"
      using a by (intro uint_size_t) auto
  then show ?thesis unfolding size_t_add unat_eq_nat_uint by simp
qed

lemma count_neighbour_eq:
  assumes "0 \<le> h" "h < 2^31" "0 \<le> w" "w < 2^31" "int r < h" "int c < w"
    and "- 1 \<le> offset_y nb" "offset_y nb \<le> 1" "- 1 \<le> offset_x nb" "offset_x nb \<le> 1"
  shows "count_neighbour b h w r c nb n = n + live_at b h w (int r + offset_y nb) (int c + offset_x nb)"
proof -
  note ty = size_t_bound_check [OF assms(5,1,2,7,8)]
  note tx = size_t_bound_check [OF assms(6,3,4,9,10)]
  show ?thesis
  proof (cases "in_board h w (int r + offset_y nb) (int c + offset_x nb)")
    case True
    then have "unat ((of_nat r :: size_t) + word_of_int (offset_y nb)) = nat (int r + offset_y nb)"
      and "unat ((of_nat c :: size_t) + word_of_int (offset_x nb)) = nat (int c + offset_x nb)"
      using assms by (auto simp: in_board_def intro!: size_t_index)
    then show ?thesis using True ty tx
      by (simp add: count_neighbour_def live_at_def in_board_def Let_def)
  next
    case False
    then show ?thesis using ty tx
      by (auto simp add: count_neighbour_def live_at_def in_board_def Let_def)
  qed
qed

lemma fold_add_sum: "fold (\<lambda>x n. n + g x) xs (k::nat) = k + sum_list (map g xs)"
  by (induction xs arbitrary: k) auto

lemma length_filter_sum: "length (filter P xs) = sum_list (map (\<lambda>x. if P x then 1 else 0) xs)"
  by (induction xs) auto

lemma neighbour_offsets: "nb \<in> set neighbour \<Longrightarrow>
   - 1 \<le> offset_y nb \<and> offset_y nb \<le> 1 \<and> - 1 \<le> offset_x nb \<and> offset_x nb \<le> 1"
  by (auto simp: neighbour_def)

lemma neighbour_count_sum:
  assumes "0 \<le> h" "h < 2^31" "0 \<le> w" "w < 2^31" "int r < h" "int c < w"
  shows "neighbour_count b h w r c =
     sum_list (map (\<lambda>nb. live_at b h w (int r + offset_y nb) (int c + offset_x nb)) neighbour)"
proof -
  have "fold (count_neighbour b h w r c) neighbour 0 =
     fold (\<lambda>nb n. n + live_at b h w (int r + offset_y nb) (int c + offset_x nb)) neighbour 0"
    by (rule fold_cong) (auto simp: count_neighbour_eq [OF assms] dest!: neighbour_offsets)
  then show ?thesis by (simp add: neighbour_count_def fold_add_sum)
qed

lemma spec_live_neighbours_sum:
  "spec_live_neighbours b h w r c =
     sum_list (map (\<lambda>(dy, dx). live_at b h w (int r + dy) (int c + dx)) spec_offsets)"
  by (simp add: spec_live_neighbours_def spec_neighbours_def length_filter_sum filter_map
      sum_list_map_filter' o_def case_prod_unfold live_at_def cong: if_cong)

lemma neighbour_count_spec:
  assumes "0 \<le> h" "h < 2^31" "0 \<le> w" "w < 2^31" "int r < h" "int c < w"
  shows "neighbour_count b h w r c = spec_live_neighbours b h w r c"
  unfolding neighbour_count_sum [OF assms] spec_live_neighbours_sum
  by (simp add: neighbour_def spec_offsets_def)



section \<open>The two passes of \<^verbatim>\<open>updateBoard\<close>\<close>

lemma loop_range_eq: "0 \<le> h \<Longrightarrow> h \<le> 2147483647 \<Longrightarrow> loop_range h = [0..<nat h]"
  by (simp add: loop_range_def unat_eq_nat_uint uint_word_of_int take_bit_int_eq_self)

lemma fold_fold_product:
  "fold (\<lambda>r. fold (f r) cs) rs b = fold (\<lambda>(r, c). f r c) (List.product rs cs) b"
  by (induction rs arbitrary: b) (simp_all add: fold_map o_def)

lemma wf_board_nth: "wf_board b h w \<Longrightarrow> r < nat h \<Longrightarrow> length (b ! r) = nat w"
  by (simp add: wf_board_def list_all_length)

lemma wf_board_update:
  "wf_board b h w \<Longrightarrow> wf_board (b[r := (b ! r)[c := x]]) h w"
  by (cases "r < length b")
     (auto simp: wf_board_def list_all_length nth_list_update list_update_beyond)

lemma map_update_same: "(map f xs)[c := f (xs ! c)] = map f xs"
  by (cases "c < length xs") (simp_all add: list_update_same_conv list_update_beyond)

lemma current_values_nth:
  "wf_board b h w \<Longrightarrow> r < nat h \<Longrightarrow> c < nat w \<Longrightarrow>
     current_values b ! r ! c = current_value (b ! r ! c)"
  by (simp add: current_values_def wf_board_def list_all_length)

lemma live_at_cong:
  assumes "wf_board b h w" "wf_board b' h w" "current_values b = current_values b'"
  shows "live_at b h w y x = live_at b' h w y x"
proof (cases "in_board h w y x")
  case True
  then have "nat y < nat h" "nat x < nat w" by (auto simp: in_board_def)
  then have "current_value (b ! nat y ! nat x) = current_value (b' ! nat y ! nat x)"
    using assms current_values_nth by metis
  then show ?thesis by (simp add: live_at_def)
next
  case False
  then show ?thesis by (simp add: live_at_def)
qed

lemma neighbour_count_cong:
  assumes "wf_board b h w" "wf_board b' h w" "current_values b = current_values b'"
    and "r < nat h" "c < nat w"
  shows "neighbour_count b h w r c = neighbour_count b' h w r c"
proof -
  have bnd: "0 \<le> h" "h < 2^31" "0 \<le> w" "w < 2^31" "int r < h" "int c < w"
    using assms by (auto simp: wf_board_def)
  show ?thesis
    unfolding neighbour_count_sum [OF bnd] using live_at_cong [OF assms(1-3)] by simp
qed

lemma current_values_update_cell:
  "current_values (update_cell h w r c b) = current_values b"
proof (cases "r < length b")
  case True
  then show ?thesis
    by (simp add: update_cell_def current_values_def map_update map_update_same
        list_update_same_conv)
next
  case False
  then show ?thesis by (simp add: update_cell_def list_update_beyond)
qed

lemma new_values_persist_cell:
  "new_values (persist_cell r c b) = new_values b"
proof (cases "r < length b")
  case True
  then show ?thesis
    by (simp add: persist_cell_def new_values_def map_update map_update_same
        list_update_same_conv)
next
  case False
  then show ?thesis by (simp add: persist_cell_def list_update_beyond)
qed

lemma wf_update_cell: "wf_board b h w \<Longrightarrow> wf_board (update_cell h w r c b) h w"
  unfolding update_cell_def by (rule wf_board_update)

lemma wf_persist_cell: "wf_board b h w \<Longrightarrow> wf_board (persist_cell r c b) h w"
  unfolding persist_cell_def by (rule wf_board_update)

lemma nth_update_cell:
  assumes "wf_board b h w" "r < nat h" "c < nat w" "r' < nat h" "c' < nat w"
  shows "update_cell h w r c b ! r' ! c' =
     (if r' = r \<and> c' = c
      then (b ! r ! c)\<lparr>new_value := next_value (current_value (b ! r ! c)) (neighbour_count b h w r c)\<rparr>
      else b ! r' ! c')"
  using assms by (auto simp: update_cell_def wf_board_def list_all_length nth_list_update)

lemma nth_persist_cell:
  assumes "wf_board b h w" "r < nat h" "c < nat w" "r' < nat h" "c' < nat w"
  shows "persist_cell r c b ! r' ! c' =
     (if r' = r \<and> c' = c
      then (b ! r ! c)\<lparr>current_value := new_value (b ! r ! c)\<rparr>
      else b ! r' ! c')"
  using assms by (auto simp: persist_cell_def wf_board_def list_all_length nth_list_update)

lemma next_of_cong:
  assumes "wf_board b h w" "wf_board b' h w" "current_values b = current_values b'"
    and "r < nat h" "c < nat w"
  shows "next_of b h w r c = next_of b' h w r c"
  using neighbour_count_cong [OF assms] current_values_nth [OF assms(1,4,5)]
    current_values_nth [OF assms(2,4,5)] assms(3)
  by (simp add: next_of_def)

lemma fold_update_cell:
  assumes "wf_board b0 h w"
  shows "wf_board b h w \<Longrightarrow> current_values b = current_values b0 \<Longrightarrow>
     \<forall>p \<in> set ps. fst p < nat h \<and> snd p < nat w \<Longrightarrow>
     wf_board (fold (\<lambda>(r, c). update_cell h w r c) ps b) h w \<and>
     current_values (fold (\<lambda>(r, c). update_cell h w r c) ps b) = current_values b0 \<and>
     (\<forall>r < nat h. \<forall>c < nat w.
        new_value (fold (\<lambda>(r, c). update_cell h w r c) ps b ! r ! c) =
          (if (r, c) \<in> set ps then next_of b0 h w r c else new_value (b ! r ! c)))"
proof (induction ps arbitrary: b)
  case Nil
  then show ?case by simp
next
  case (Cons p ps)
  obtain r c where p: "p = (r, c)" by (cases p)
  have rc: "r < nat h" "c < nat w" using Cons.prems(3) p by auto
  let ?b = "update_cell h w r c b"
  have wf: "wf_board ?b h w" using Cons.prems(1) by (rule wf_update_cell)
  have cv: "current_values ?b = current_values b0"
    using Cons.prems(2) by (simp add: current_values_update_cell)
  have ps: "\<forall>p \<in> set ps. fst p < nat h \<and> snd p < nat w" using Cons.prems(3) by simp
  note IH = Cons.IH [OF wf cv ps]
  have nv: "new_value (?b ! r' ! c') =
      (if r' = r \<and> c' = c then next_of b0 h w r c else new_value (b ! r' ! c'))"
    if "r' < nat h" "c' < nat w" for r' c'
    using nth_update_cell [OF Cons.prems(1) rc that]
      next_of_cong [OF Cons.prems(1) assms Cons.prems(2) rc]
    by (simp add: next_of_def)
  show ?case using IH nv by (auto simp: p)
qed

lemma fold_persist_cell:
  "wf_board b h w \<Longrightarrow> \<forall>p \<in> set ps. fst p < nat h \<and> snd p < nat w \<Longrightarrow>
     wf_board (fold (\<lambda>(r, c). persist_cell r c) ps b) h w \<and>
     new_values (fold (\<lambda>(r, c). persist_cell r c) ps b) = new_values b \<and>
     (\<forall>r < nat h. \<forall>c < nat w.
        current_value (fold (\<lambda>(r, c). persist_cell r c) ps b ! r ! c) =
          (if (r, c) \<in> set ps then new_value (b ! r ! c) else current_value (b ! r ! c)))"
proof (induction ps arbitrary: b)
  case Nil
  then show ?case by simp
next
  case (Cons p ps)
  obtain r c where p: "p = (r, c)" by (cases p)
  have rc: "r < nat h" "c < nat w" using Cons.prems(2) p by auto
  let ?b = "persist_cell r c b"
  have wf: "wf_board ?b h w" using Cons.prems(1) by (rule wf_persist_cell)
  have nvs: "new_values ?b = new_values b" by (rule new_values_persist_cell)
  have ps: "\<forall>p \<in> set ps. fst p < nat h \<and> snd p < nat w" using Cons.prems(2) by simp
  note IH = Cons.IH [OF wf ps]
  have nv: "new_value (?b ! r' ! c') = new_value (b ! r' ! c')"
    if "r' < nat h" "c' < nat w" for r' c'
    using nth_persist_cell [OF Cons.prems(1) rc that] by simp
  have cv: "current_value (?b ! r' ! c') =
      (if r' = r \<and> c' = c then new_value (b ! r ! c) else current_value (b ! r' ! c'))"
    if "r' < nat h" "c' < nat w" for r' c'
    using nth_persist_cell [OF Cons.prems(1) rc that] by simp
  show ?case using IH nv cv nvs by (auto simp: p)
qed



lemma all_positions:
  "\<forall>p \<in> set (List.product [0..<nat h] [0..<nat w]). fst p < nat h \<and> snd p < nat w"
  by auto

lemma compute_new_values_props:
  assumes "wf_board b h w"
  shows "wf_board (compute_new_values b h w) h w"
    and "current_values (compute_new_values b h w) = current_values b"
    and "r < nat h \<Longrightarrow> c < nat w \<Longrightarrow>
           new_value (compute_new_values b h w ! r ! c) = next_of b h w r c"
proof -
  have rng: "loop_range h = [0..<nat h]" "loop_range w = [0..<nat w]"
    using assms by (auto simp: wf_board_def loop_range_eq)
  have eq: "compute_new_values b h w =
      fold (\<lambda>(r, c). update_cell h w r c) (List.product [0..<nat h] [0..<nat w]) b"
    by (simp add: compute_new_values_def rng fold_fold_product)
  note F = fold_update_cell [OF assms assms refl all_positions, folded eq]
  show "wf_board (compute_new_values b h w) h w" using F by simp
  show "current_values (compute_new_values b h w) = current_values b" using F by simp
  show "new_value (compute_new_values b h w ! r ! c) = next_of b h w r c"
    if "r < nat h" "c < nat w" using F that by simp
qed

lemma persist_values_props:
  assumes "wf_board b h w"
  shows "wf_board (persist_values b h w) h w"
    and "r < nat h \<Longrightarrow> c < nat w \<Longrightarrow>
           current_value (persist_values b h w ! r ! c) = new_value (b ! r ! c)"
    and "r < nat h \<Longrightarrow> c < nat w \<Longrightarrow>
           new_value (persist_values b h w ! r ! c) = new_value (b ! r ! c)"
proof -
  have rng: "loop_range h = [0..<nat h]" "loop_range w = [0..<nat w]"
    using assms by (auto simp: wf_board_def loop_range_eq)
  have eq: "persist_values b h w =
      fold (\<lambda>(r, c). persist_cell r c) (List.product [0..<nat h] [0..<nat w]) b"
    by (simp add: persist_values_def rng fold_fold_product)
  note F = fold_persist_cell [OF assms all_positions, folded eq]
  show wf: "wf_board (persist_values b h w) h w" using F by simp
  show "current_value (persist_values b h w ! r ! c) = new_value (b ! r ! c)"
    if "r < nat h" "c < nat w" using F that by simp
  show "new_value (persist_values b h w ! r ! c) = new_value (b ! r ! c)"
    if "r < nat h" "c < nat w"
  proof -
    have "new_values (persist_values b h w) ! r ! c = new_values b ! r ! c" using F by simp
    then show ?thesis using that wf assms
      by (simp add: new_values_def wf_board_def list_all_length)
  qed
qed

lemma wf_updateBoard: "wf_board b h w \<Longrightarrow> wf_board (updateBoard b h w) h w"
  by (simp add: updateBoard_def compute_new_values_props(1) persist_values_props(1))

lemma updateBoard_nth:
  assumes "wf_board b h w" "r < nat h" "c < nat w"
  shows "updateBoard b h w ! r ! c =
     \<lparr>current_value = next_of b h w r c, new_value = next_of b h w r c\<rparr>"
proof -
  note C = compute_new_values_props [OF assms(1)]
  note P = persist_values_props [OF C(1)]
  have "current_value (updateBoard b h w ! r ! c) = next_of b h w r c"
    and "new_value (updateBoard b h w ! r ! c) = next_of b h w r c"
    using P(2,3) [OF assms(2,3)] C(3) [OF assms(2,3)] by (simp_all add: updateBoard_def)
  then show ?thesis by (cases "updateBoard b h w ! r ! c") simp
qed

lemma next_of_spec:
  assumes "wf_board b h w" "r < nat h" "c < nat w"
  shows "next_of b h w r c =
     next_value (current_value (b ! r ! c)) (spec_live_neighbours b h w r c)"
proof -
  have bnd: "0 \<le> h" "h < 2^31" "0 \<le> w" "w < 2^31" "int r < h" "int c < w"
    using assms by (auto simp: wf_board_def)
  show ?thesis by (simp add: next_of_def neighbour_count_spec [OF bnd])
qed

lemma updateBoard_spec_step:
  assumes "wf_board b h w"
  shows "updateBoard b h w = spec_step b h w"
proof (rule nth_equalityI)
  note wf = wf_updateBoard [OF assms]
  show len: "length (updateBoard b h w) = length (spec_step b h w)"
    using wf by (simp add: wf_board_def spec_step_def)
  fix r assume "r < length (updateBoard b h w)"
  then have r: "r < nat h" using wf by (simp add: wf_board_def)
  show "updateBoard b h w ! r = spec_step b h w ! r"
  proof (rule nth_equalityI)
    show "length (updateBoard b h w ! r) = length (spec_step b h w ! r)"
      using wf_board_nth [OF wf r] r by (simp add: spec_step_def)
    fix c assume "c < length (updateBoard b h w ! r)"
    then have c: "c < nat w" using wf_board_nth [OF wf r] by simp
    show "updateBoard b h w ! r ! c = spec_step b h w ! r ! c"
      using updateBoard_nth [OF assms r c] next_of_spec [OF assms r c] r c
      by (simp add: spec_step_def spec_cell_def Let_def)
  qed
qed



section \<open>Claims about \<^verbatim>\<open>updateBoard\<close>\<close>

lemma upt_nat_2: "[0..<nat 2] = [0, 1]"
  by (simp add: upt_rec)

lemma upt_nat_3: "[0..<nat 3] = [0, 1, 2]"
  by (simp add: upt_rec)

lemma valid_board_nth:
  "valid_board b \<Longrightarrow> wf_board b h w \<Longrightarrow> r < nat h \<Longrightarrow> c < nat w \<Longrightarrow>
     is_marker (current_value (b ! r ! c))"
  by (simp add: valid_board_def wf_board_def list_all_length)

lemma next_value_rule:
  "is_marker v \<Longrightarrow> (next_value v n = CHR ''#'') = spec_rule (v = CHR ''#'') n"
  by (auto simp: next_value_def spec_rule_def is_marker_def)

lemma next_value_marker: "is_marker (next_value v n)"
  by (simp add: next_value_def is_marker_def)

text \<open>
  Claim C1. On a valid board of the given dimensions, the cell at \<open>(r, c)\<close> is alive after
  \<^verbatim>\<open>updateBoard\<close> exactly when the standard rule says so for its state and its number of
  live neighbours in the board before the call: a live cell with two or three live
  neighbours and a dead cell with three are alive, every other cell is dead (it holds the
  marker \<open>.\<close>). The first pass leaves the current generation as it was, and the second pass
  makes the values the first pass computed the current generation.
\<close>

theorem updateBoard_standard_rule:
  assumes "wf_board b h w" and "valid_board b" and "r < nat h" and "c < nat w"
  shows "is_alive (updateBoard b h w ! r ! c) =
           spec_rule (is_alive (b ! r ! c)) (spec_live_neighbours b h w r c) \<and>
         (\<not> is_alive (updateBoard b h w ! r ! c) \<longrightarrow>
            current_value (updateBoard b h w ! r ! c) = CHR ''.'') \<and>
         current_values (compute_new_values b h w) = current_values b \<and>
         current_values (updateBoard b h w) = new_values (compute_new_values b h w)"
proof -
  note C = compute_new_values_props [OF assms(1)]
  note P = persist_values_props [OF C(1)]
  have cell: "updateBoard b h w ! r ! c = spec_cell b h w r c"
    using updateBoard_nth [OF assms(1,3,4)] next_of_spec [OF assms(1,3,4)]
    by (simp add: spec_cell_def Let_def)
  have m: "is_marker (current_value (b ! r ! c))"
    by (rule valid_board_nth [OF assms(2,1,3,4)])
  have alive: "is_alive (updateBoard b h w ! r ! c) =
      spec_rule (is_alive (b ! r ! c)) (spec_live_neighbours b h w r c)"
    unfolding cell using next_value_rule [OF m]
    by (simp add: is_alive_def spec_cell_def Let_def)
  have dead: "\<not> is_alive (updateBoard b h w ! r ! c) \<longrightarrow>
      current_value (updateBoard b h w ! r ! c) = CHR ''.''"
    unfolding cell
    using next_value_marker [of "current_value (b ! r ! c)" "spec_live_neighbours b h w r c"]
    by (auto simp: is_alive_def spec_cell_def Let_def is_marker_def)
  have commit: "current_values (updateBoard b h w) = new_values (compute_new_values b h w)"
  proof -
    have "map (map current_value) (persist_values (compute_new_values b h w) h w) =
        map (map new_value) (compute_new_values b h w)"
    proof (rule nth_equalityI)
      show "length (map (map current_value) (persist_values (compute_new_values b h w) h w)) =
          length (map (map new_value) (compute_new_values b h w))"
        using P(1) C(1) by (simp add: wf_board_def)
      fix i
      assume "i < length (map (map current_value) (persist_values (compute_new_values b h w) h w))"
      then have i: "i < nat h" using P(1) by (simp add: wf_board_def)
      have li: "length (persist_values (compute_new_values b h w) h w ! i) = nat w"
        "length (compute_new_values b h w ! i) = nat w"
        using wf_board_nth [OF P(1) i] wf_board_nth [OF C(1) i] by simp_all
      have "map current_value (persist_values (compute_new_values b h w) h w ! i) =
          map new_value (compute_new_values b h w ! i)"
        by (rule nth_equalityI) (simp_all add: li P(2) [OF i])
      then show "map (map current_value) (persist_values (compute_new_values b h w) h w) ! i =
          map (map new_value) (compute_new_values b h w) ! i"
        using i P(1) C(1) by (simp add: wf_board_def)
    qed
    then show ?thesis by (simp add: updateBoard_def current_values_def new_values_def)
  qed
  show ?thesis using alive dead C(2) commit by simp
qed

text \<open>
  Witness for C1, on the vertical blinker: the dead cell at \<open>(1, 0)\<close> has three live
  neighbours and is alive after the call; the live cell at \<open>(0, 1)\<close> has one and is dead.
\<close>

theorem updateBoard_standard_rule_witness:
  "wf_board (board_of [''.#.'', ''.#.'', ''.#.'']) 3 3 \<and>
   valid_board (board_of [''.#.'', ''.#.'', ''.#.'']) \<and>
   \<not> is_alive (board_of [''.#.'', ''.#.'', ''.#.''] ! 1 ! 0) \<and>
   spec_live_neighbours (board_of [''.#.'', ''.#.'', ''.#.'']) 3 3 1 0 = 3 \<and>
   is_alive (updateBoard (board_of [''.#.'', ''.#.'', ''.#.'']) 3 3 ! 1 ! 0) \<and>
   is_alive (board_of [''.#.'', ''.#.'', ''.#.''] ! 0 ! 1) \<and>
   spec_live_neighbours (board_of [''.#.'', ''.#.'', ''.#.'']) 3 3 0 1 = 1 \<and>
   current_value (updateBoard (board_of [''.#.'', ''.#.'', ''.#.'']) 3 3 ! 0 ! 1) = CHR ''.''"
proof -
  let ?b = "board_of [''.#.'', ''.#.'', ''.#.'']"
  have wf: "wf_board ?b 3 3" by (simp add: wf_board_def board_of_def)
  have valid: "valid_board ?b" by (simp add: valid_board_def board_of_def filled_def is_marker_def)
  have n10: "spec_live_neighbours ?b 3 3 1 0 = 3"
    by (simp add: spec_live_neighbours_def spec_neighbours_def spec_offsets_def in_board_def
        board_of_def filled_def)
  have n01: "spec_live_neighbours ?b 3 3 0 1 = 1"
    by (simp add: spec_live_neighbours_def spec_neighbours_def spec_offsets_def in_board_def
        board_of_def filled_def)
  have a10: "\<not> is_alive (?b ! 1 ! 0)" and a01: "is_alive (?b ! 0 ! 1)"
    by (simp_all add: is_alive_def board_of_def filled_def)
  have r10: "is_alive (updateBoard ?b 3 3 ! 1 ! 0)"
    using updateBoard_standard_rule [OF wf valid, of 1 0] a10 n10 by (simp add: spec_rule_def)
  have r01: "current_value (updateBoard ?b 3 3 ! 0 ! 1) = CHR ''.''"
    using updateBoard_standard_rule [OF wf valid, of 0 1] a01 n01 by (simp add: spec_rule_def)
  show ?thesis using wf valid a10 n10 r10 a01 n01 r01 by simp
qed

lemma length_spec_neighbours_sum:
  "length (spec_neighbours h w r c) =
     sum_list (map (\<lambda>(dy, dx). if in_board h w (int r + dy) (int c + dx) then 1 else 0)
       spec_offsets)"
  by (simp add: spec_neighbours_def length_filter_sum filter_map o_def case_prod_unfold)

lemma spec_live_neighbours_le: "spec_live_neighbours b h w r c \<le> length (spec_neighbours h w r c)"
  by (simp add: spec_live_neighbours_def)

lemma corner_neighbours:
  assumes "r = 0 \<or> int r = h - 1" and "c = 0 \<or> int c = w - 1"
  shows "length (spec_neighbours h w r c) \<le> 3"
  using assms unfolding length_spec_neighbours_sum
  by (auto simp: spec_offsets_def in_board_def)

lemma edge_neighbours:
  assumes "r = 0 \<or> int r = h - 1 \<or> c = 0 \<or> int c = w - 1"
  shows "length (spec_neighbours h w r c) \<le> 5"
  using assms unfolding length_spec_neighbours_sum
  by (auto simp: spec_offsets_def in_board_def)

text \<open>
  Claim C2. For a cell \<open>(r, c)\<close> of a board of height \<open>h\<close> and width \<open>w\<close>, the count that
  \<^verbatim>\<open>updateBoard\<close> computes with its \<^verbatim>\<open>size_t\<close> arithmetic is the number of live cells
  among the positions at the eight offsets that lie in \<open>[0, h) \<times> [0, w)\<close>: a position
  outside is not counted and nothing wraps around. So a corner cell has at most 3 counted
  neighbours, a cell on an edge at most 5, and any cell at most 8.
\<close>

theorem neighbour_count_hard_edges:
  assumes "0 \<le> h" and "h \<le> 2147483647" and "0 \<le> w" and "w \<le> 2147483647"
    and "int r < h" and "int c < w"
  shows "neighbour_count b h w r c = spec_live_neighbours b h w r c \<and>
         neighbour_count b h w r c \<le> 8 \<and>
         ((r = 0 \<or> int r = h - 1) \<and> (c = 0 \<or> int c = w - 1) \<longrightarrow>
            neighbour_count b h w r c \<le> 3) \<and>
         (r = 0 \<or> int r = h - 1 \<or> c = 0 \<or> int c = w - 1 \<longrightarrow>
            neighbour_count b h w r c \<le> 5)"
proof -
  have bnd: "0 \<le> h" "h < 2^31" "0 \<le> w" "w < 2^31" "int r < h" "int c < w"
    using assms by simp_all
  note eq = neighbour_count_spec [OF bnd]
  have "length (spec_neighbours h w r c) \<le> 8"
    by (simp add: spec_neighbours_def spec_offsets_def)
  then have all: "neighbour_count b h w r c \<le> 8"
    using spec_live_neighbours_le [of b h w r c] eq by simp
  have corner: "neighbour_count b h w r c \<le> 3"
    if "(r = 0 \<or> int r = h - 1) \<and> (c = 0 \<or> int c = w - 1)"
    using corner_neighbours [of r h c w] that spec_live_neighbours_le [of b h w r c] eq by simp
  have edge: "neighbour_count b h w r c \<le> 5"
    if "r = 0 \<or> int r = h - 1 \<or> c = 0 \<or> int c = w - 1"
    using edge_neighbours [of r h c w] that spec_live_neighbours_le [of b h w r c] eq by simp
  show ?thesis using eq all corner edge by blast
qed

text \<open>
  Witness for C2, on the 3 by 3 board of nine live cells: the corner \<open>(0, 2)\<close> counts its
  three neighbours, the edge cell \<open>(1, 2)\<close> its five.
\<close>

theorem neighbour_count_hard_edges_witness:
  "(0::int) \<le> 3 \<and> (3::int) \<le> 2147483647 \<and> int 0 < 3 \<and> int 2 < 3 \<and>
   spec_neighbours 3 3 0 2 = [(0, 1), (1, 1), (1, 2)] \<and>
   neighbour_count (board_of [''###'', ''###'', ''###'']) 3 3 0 2 = 3 \<and>
   spec_neighbours 3 3 1 2 = [(0, 1), (0, 2), (1, 1), (2, 1), (2, 2)] \<and>
   neighbour_count (board_of [''###'', ''###'', ''###'']) 3 3 1 2 = 5"
proof -
  let ?b = "board_of [''###'', ''###'', ''###'']"
  have n02: "spec_neighbours 3 3 0 2 = [(0, 1), (1, 1), (1, 2)]"
    by (simp add: spec_neighbours_def spec_offsets_def in_board_def)
  have n12: "spec_neighbours 3 3 1 2 = [(0, 1), (0, 2), (1, 1), (2, 1), (2, 2)]"
    by (simp add: spec_neighbours_def spec_offsets_def in_board_def)
  have s02: "spec_live_neighbours ?b 3 3 0 2 = 3"
    by (simp add: spec_live_neighbours_def spec_neighbours_def spec_offsets_def in_board_def
        board_of_def filled_def)
  have s12: "spec_live_neighbours ?b 3 3 1 2 = 5"
    by (simp add: spec_live_neighbours_def spec_neighbours_def spec_offsets_def in_board_def
        board_of_def filled_def)
  have c02: "neighbour_count ?b 3 3 0 2 = 3"
    using neighbour_count_hard_edges [of 3 3 0 2 ?b] s02 by simp
  have c12: "neighbour_count ?b 3 3 1 2 = 5"
    using neighbour_count_hard_edges [of 3 3 1 2 ?b] s12 by simp
  show ?thesis using n02 n12 c02 c12 by simp
qed

lemma blinker_vertical_step:
  "updateBoard (board_of [''.#.'', ''.#.'', ''.#.'']) 3 3 = board_of [''...'', ''###'', ''...'']"
proof -
  have wf: "wf_board (board_of [''.#.'', ''.#.'', ''.#.'']) 3 3"
    by (simp add: wf_board_def board_of_def)
  show ?thesis unfolding updateBoard_spec_step [OF wf] spec_step_def upt_nat_3 list.map
    by (simp add: spec_cell_def board_of_def filled_def spec_live_neighbours_def
        spec_neighbours_def spec_offsets_def in_board_def next_value_def Let_def)
qed

lemma blinker_horizontal_step:
  "updateBoard (board_of [''...'', ''###'', ''...'']) 3 3 = board_of [''.#.'', ''.#.'', ''.#.'']"
proof -
  have wf: "wf_board (board_of [''...'', ''###'', ''...'']) 3 3"
    by (simp add: wf_board_def board_of_def)
  show ?thesis unfolding updateBoard_spec_step [OF wf] spec_step_def upt_nat_3 list.map
    by (simp add: spec_cell_def board_of_def filled_def spec_live_neighbours_def
        spec_neighbours_def spec_offsets_def in_board_def next_value_def Let_def)
qed

text \<open>
  Claim C8. One call of \<^verbatim>\<open>updateBoard\<close> turns the vertical blinker on the 3 by 3 board
  into the horizontal one, a call on the horizontal blinker gives the vertical one, and so
  two calls give the vertical blinker back.
\<close>

theorem blinker_period_two:
  "updateBoard (board_of [''.#.'', ''.#.'', ''.#.'']) 3 3 = board_of [''...'', ''###'', ''...''] \<and>
   updateBoard (board_of [''...'', ''###'', ''...'']) 3 3 = board_of [''.#.'', ''.#.'', ''.#.''] \<and>
   updateBoard (updateBoard (board_of [''.#.'', ''.#.'', ''.#.'']) 3 3) 3 3 =
     board_of [''.#.'', ''.#.'', ''.#.'']"
  by (simp add: blinker_vertical_step blinker_horizontal_step)

lemma block_step:
  "updateBoard (board_of [''##'', ''##'']) 2 2 = board_of [''##'', ''##'']"
proof -
  have wf: "wf_board (board_of [''##'', ''##'']) 2 2"
    by (simp add: wf_board_def board_of_def)
  show ?thesis unfolding updateBoard_spec_step [OF wf] spec_step_def upt_nat_2 list.map
    by (simp add: spec_cell_def board_of_def filled_def spec_live_neighbours_def
        spec_neighbours_def spec_offsets_def in_board_def next_value_def Let_def)
qed

text \<open>
  Claim C9. The 2 by 2 board of four live cells is a fixed point: any number \<open>n\<close> of calls
  of \<^verbatim>\<open>updateBoard\<close> leaves it as it is.
\<close>

theorem block_still_life:
  "((\<lambda>board. updateBoard board 2 2) ^^ n) (board_of [''##'', ''##'']) = board_of [''##'', ''##'']"
  by (induction n) (simp_all add: block_step)

section \<open>The loop of \<^verbatim>\<open>checkConfigFile\<close>, byte by byte and line by line\<close>

text \<open>
  The loop on a stream whose end-of-file indicator is clear: one equation for each kind of
  byte at the read position (a marker, the line terminator, the end of the file, the byte
  \<open>0xFF\<close>, any other byte), then the equations for whole lines of markers.
\<close>

lemma fgetc_stream_Cons [simp]:
  "int_to_char (fst (fgetc (stream t (c # u)))) = c"
  "snd (fgetc (stream t (c # u))) = stream t u"
  by (simp_all add: fgetc_def stream_def)

lemma fgetc_stream_Nil [simp]:
  "int_to_char (fst (fgetc (stream t []))) = CHR 0xFF"
  "snd (fgetc (stream t [])) = (stream t [])\<lparr>eof_indicator := True\<rparr>"
  by (simp_all add: fgetc_def stream_def)

lemma feof_stream [simp]: "\<not> feof (stream t u)"
  by (simp add: feof_def stream_def)

lemma loop_marker:
  "is_marker m \<Longrightarrow>
     checkConfigFile_loop (stream t (m # u)) lc cc nrows =
     checkConfigFile_loop (stream t u) lc (cc + 1) nrows"
  by (subst checkConfigFile_loop.simps)
     (auto simp: Let_def is_marker_def)

lemma loop_markers:
  "list_all is_marker l \<Longrightarrow>
     checkConfigFile_loop (stream t (l @ u)) lc cc nrows =
     checkConfigFile_loop (stream t u) lc (cc + of_nat (length l)) nrows"
  by (induction l arbitrary: cc) (simp_all add: loop_marker add.assoc)

lemma loop_newline:
  "checkConfigFile_loop (stream t (CHR 0x0A # u)) lc cc nrows =
     (if lc = 0 then checkConfigFile_loop (stream t u) (cc + 1) 0 (nrows + 1)
      else if lc \<noteq> cc + 1 then Inl InconsistentColumnCount
      else checkConfigFile_loop (stream t u) lc 0 (nrows + 1))"
  by (subst checkConfigFile_loop.simps)
     (auto simp: Let_def)

lemma loop_end:
  "checkConfigFile_loop (stream t []) lc cc nrows =
     (if lc \<noteq> cc + 1 then Inl InconsistentColumnCount
      else Inr ((stream t [])\<lparr>eof_indicator := True\<rparr>, lc, nrows))"
  by (subst checkConfigFile_loop.simps)
     (auto simp: Let_def)

lemma loop_0xFF:
  "checkConfigFile_loop (stream t (CHR 0xFF # u)) lc cc nrows =
     (if lc \<noteq> cc + 1 then Inl InconsistentColumnCount
      else Inr (stream t u, lc, nrows))"
  by (subst checkConfigFile_loop.simps)
     (auto simp: Let_def)

lemma loop_invalid:
  "\<not> is_marker x \<Longrightarrow> x \<noteq> CHR 0x0A \<Longrightarrow> x \<noteq> CHR 0xFF \<Longrightarrow>
     checkConfigFile_loop (stream t (x # u)) lc cc nrows = Inl (InvalidCharacter x)"
  by (subst checkConfigFile_loop.simps)
     (auto simp: Let_def is_marker_def)

lemma checkConfigFile_Some:
  "checkConfigFile (Some t) =
     (case checkConfigFile_loop (stream t t) 0 0 0 of
        Inl e \<Rightarrow> Inl e
      | Inr (f, lc, nrows) \<Rightarrow> Inr (f, ucast (nrows + 1), ucast (lc - 1)))"
  by (simp add: checkConfigFile_def fopen_def stream_def)

lemma loop_first_line:
  "list_all is_marker l \<Longrightarrow>
     checkConfigFile_loop (stream t (l @ CHR 0x0A # u)) 0 0 nrows =
     checkConfigFile_loop (stream t u) (of_nat (length l) + 1) 0 (nrows + 1)"
  by (simp add: loop_markers loop_newline)

lemma loop_good_line:
  "list_all is_marker l \<Longrightarrow>
     checkConfigFile_loop (stream t (l @ CHR 0x0A # u)) (of_nat (length l) + 1) 0 nrows =
     checkConfigFile_loop (stream t u) (of_nat (length l) + 1) 0 (nrows + 1)"
  by (simp add: loop_markers loop_newline)

text \<open>
  Below \<open>2^31\<close> the counters do not wrap: different line lengths are different counter
  values, and a column count that has been set is not 0.
\<close>

lemma c_int_of_nat_eq:
  "m < 2147483648 \<Longrightarrow> n < 2147483648 \<Longrightarrow> ((of_nat m :: c_int) = of_nat n) = (m = n)"
  by (simp add: word_of_nat_eq_iff take_bit_nat_eq_self)

lemma c_int_succ_eq:
  assumes "m < 2147483648" and "n < 2147483648"
  shows "((of_nat m :: c_int) + 1 = of_nat n + 1) = (m = n)"
  by (simp add: c_int_of_nat_eq [OF assms])

lemma c_int_succ_nonzero:
  assumes "m < 2147483648"
  shows "(of_nat m :: c_int) + 1 \<noteq> 0"
proof -
  have "((of_nat (Suc m) :: c_int) = of_nat 0) = (Suc m = 0)"
    using assms by (simp only: word_of_nat_eq_iff) (simp add: take_bit_nat_eq_self)
  then show ?thesis by (simp add: add.commute)
qed

lemma ucast_c_int_of_nat: "(ucast (of_nat n :: c_int) :: 8 word) = of_nat n"
  by (simp add: unsigned_of_nat word_of_nat_eq_iff min_def)

lemma loop_bad_line:
  assumes "list_all is_marker l" and "length l \<noteq> m"
    and "m < 2147483648" and "length l < 2147483648"
  shows "checkConfigFile_loop (stream t (l @ CHR 0x0A # u)) (of_nat m + 1) 0 nrows =
     Inl InconsistentColumnCount"
  using assms(2) c_int_succ_nonzero [OF assms(3)] c_int_succ_eq [OF assms(3,4)]
  by (simp add: loop_markers [OF assms(1)] loop_newline)

lemma loop_last_line:
  "list_all is_marker l \<Longrightarrow>
     checkConfigFile_loop (stream t l) lc 0 nrows =
       (if lc \<noteq> of_nat (length l) + 1 then Inl InconsistentColumnCount
        else Inr ((stream t [])\<lparr>eof_indicator := True\<rparr>, lc, nrows))"
  using loop_markers [of l t "[]" lc 0 nrows] by (simp add: loop_end)

lemma loop_terminated_lines:
  "uniform_lines m ls \<Longrightarrow>
     checkConfigFile_loop (stream t (terminated_lines ls @ u)) (of_nat m + 1) 0 nrows =
     checkConfigFile_loop (stream t u) (of_nat m + 1) 0 (nrows + of_nat (length ls))"
proof (induction ls arbitrary: nrows)
  case Nil
  then show ?case by (simp add: terminated_lines_def)
next
  case (Cons l ls)
  then have l: "list_all is_marker l" "length l = m" and ls: "uniform_lines m ls"
    by (simp_all add: uniform_lines_def)
  have "terminated_lines (l # ls) @ u = l @ CHR 0x0A # (terminated_lines ls @ u)"
    by (simp add: terminated_lines_def)
  then show ?case using loop_good_line [OF l(1), of t "terminated_lines ls @ u" nrows]
      Cons.IH [OF ls, of "nrows + 1"] l(2)
    by (simp add: add.assoc)
qed

lemma loop_header:
  assumes "list_all is_marker l0" and "uniform_lines (length l0) ls"
  shows "checkConfigFile_loop (stream t (terminated_lines (l0 # ls) @ u)) 0 0 0 =
     checkConfigFile_loop (stream t u) (of_nat (length l0) + 1) 0 (1 + of_nat (length ls))"
proof -
  have "terminated_lines (l0 # ls) @ u = l0 @ CHR 0x0A # (terminated_lines ls @ u)"
    by (simp add: terminated_lines_def)
  then show ?thesis
    using loop_first_line [OF assms(1), of t "terminated_lines ls @ u" 0]
      loop_terminated_lines [OF assms(2), of t u 1]
    by simp
qed

lemma config_text_snoc:
  "config_text (ls @ [l]) = terminated_lines ls @ l"
  by (induction ls rule: config_text.induct) (simp_all add: terminated_lines_def)

section \<open>The board \<^verbatim>\<open>fillBoard\<close> builds\<close>

text \<open>
  \<^verbatim>\<open>fillBoard\<close> reads the file from its start in rows of \<open>board_width + 1\<close> bytes: the
  cell \<open>(r, c)\<close> receives the byte at position \<open>r * (board_width + 1) + c\<close>. The read
  position is followed through the three nested loops.
\<close>

lemma fgetc_at:
  assumes "unread f = drop p (contents f)"
  shows "int_to_char (fst (fgetc f)) = byte_at (contents f) p \<and>
         unread (snd (fgetc f)) = drop (Suc p) (contents f) \<and>
         contents (snd (fgetc f)) = contents f"
proof (cases "p < length (contents f)")
  case True
  then have "unread f = contents f ! p # drop (Suc p) (contents f)"
    using assms by (simp add: Cons_nth_drop_Suc)
  then show ?thesis using True by (simp add: fgetc_def byte_at_def)
next
  case False
  then show ?thesis using assms by (simp add: fgetc_def byte_at_def)
qed

lemma map_length_eqD:
  assumes "map length b' = map length (b :: 'a list list)"
  shows "length b' = length b" and "r < length b \<Longrightarrow> length (b' ! r) = length (b ! r)"
proof -
  show l: "length b' = length b" using assms by (metis length_map)
  show "length (b' ! r) = length (b ! r)" if "r < length b"
    using assms that l by (metis nth_map)
qed

lemma fillBoard_cell_props:
  assumes "unread (fst s) = drop p (contents (fst s))"
  shows "unread (fst (fillBoard_cell row column s)) = drop (Suc p) (contents (fst s))"
    and "contents (fst (fillBoard_cell row column s)) = contents (fst s)"
    and "map length (snd (fillBoard_cell row column s)) = map length (snd s)"
    and "row < length (snd s) \<Longrightarrow> column < length (snd s ! row) \<Longrightarrow>
         snd (fillBoard_cell row column s) ! r ! c =
           (if r = row \<and> c = column then filled (byte_at (contents (fst s)) p) else snd s ! r ! c)"
proof -
  note G = fgetc_at [OF assms]
  show "unread (fst (fillBoard_cell row column s)) = drop (Suc p) (contents (fst s))"
    using G by (simp add: fillBoard_cell_def Let_def)
  show "contents (fst (fillBoard_cell row column s)) = contents (fst s)"
    using G by (simp add: fillBoard_cell_def Let_def)
  show "map length (snd (fillBoard_cell row column s)) = map length (snd s)"
    by (cases "row < length (snd s)")
       (simp_all add: fillBoard_cell_def Let_def map_update list_update_same_conv list_update_beyond)
  show "snd (fillBoard_cell row column s) ! r ! c =
           (if r = row \<and> c = column then filled (byte_at (contents (fst s)) p) else snd s ! r ! c)"
    if "row < length (snd s)" "column < length (snd s ! row)"
    using that G
    by (cases "r = row")
      (auto simp: fillBoard_cell_def Let_def nth_list_update filled_def)
qed

lemma fillBoard_columns:
  assumes "unread (fst s) = drop p (contents (fst s))" and "row < length (snd s)"
  shows "n \<le> length (snd s ! row) \<Longrightarrow>
     unread (fst (fold (fillBoard_cell row) [0..<n] s)) = drop (p + n) (contents (fst s)) \<and>
     contents (fst (fold (fillBoard_cell row) [0..<n] s)) = contents (fst s) \<and>
     map length (snd (fold (fillBoard_cell row) [0..<n] s)) = map length (snd s) \<and>
     (\<forall>r c. snd (fold (fillBoard_cell row) [0..<n] s) ! r ! c =
        (if r = row \<and> c < n then filled (byte_at (contents (fst s)) (p + c)) else snd s ! r ! c))"
proof (induction n)
  case 0
  then show ?case using assms by simp
next
  case (Suc n)
  let ?s = "fold (fillBoard_cell row) [0..<n] s"
  have IH: "unread (fst ?s) = drop (p + n) (contents (fst s))"
    "contents (fst ?s) = contents (fst s)"
    "map length (snd ?s) = map length (snd s)"
    "\<And>r c. snd ?s ! r ! c =
        (if r = row \<and> c < n then filled (byte_at (contents (fst s)) (p + c)) else snd s ! r ! c)"
    using Suc by simp_all
  have u: "unread (fst ?s) = drop (p + n) (contents (fst ?s))" using IH(1,2) by simp
  have row: "row < length (snd ?s)" using map_length_eqD(1) [OF IH(3)] assms(2) by simp
  have col: "n < length (snd ?s ! row)"
    using map_length_eqD(2) [OF IH(3) assms(2)] Suc.prems by simp
  note C = fillBoard_cell_props [OF u, of row n]
  have step: "fold (fillBoard_cell row) [0..<Suc n] s = fillBoard_cell row n ?s" by simp
  have cells: "snd (fillBoard_cell row n ?s) ! r ! c =
        (if r = row \<and> c < Suc n then filled (byte_at (contents (fst s)) (p + c)) else snd s ! r ! c)"
    for r c
    using C(4) [OF row col, of r c] IH(2) IH(4) [of r c] by (auto simp: less_Suc_eq)
  show ?case unfolding step using C(1,2,3) IH(2,3) cells by simp
qed

lemma fillBoard_row_props:
  assumes "unread (fst s) = drop p (contents (fst s))" and "row < length (snd s)"
    and "length (snd s ! row) = w"
  shows "unread (fst (fillBoard_row w row s)) = drop (p + (w + 1)) (contents (fst s)) \<and>
     contents (fst (fillBoard_row w row s)) = contents (fst s) \<and>
     map length (snd (fillBoard_row w row s)) = map length (snd s) \<and>
     (\<forall>r c. snd (fillBoard_row w row s) ! r ! c =
        (if r = row \<and> c < w then filled (byte_at (contents (fst s)) (p + c)) else snd s ! r ! c))"
proof -
  let ?s = "fold (fillBoard_cell row) [0..<w] s"
  have le: "w \<le> length (snd s ! row)" using assms(3) by simp
  note F = fillBoard_columns [OF assms(1,2) le]
  have u: "unread (fst ?s) = drop (p + w) (contents (fst ?s))" using F by simp
  note G = fgetc_at [OF u]
  show ?thesis using F G by (simp add: fillBoard_row_def Let_def)
qed

lemma fillBoard_rows:
  assumes "unread (fst s) = drop p (contents (fst s))"
    and "list_all (\<lambda>row. length row = w) (snd s)"
  shows "k \<le> length (snd s) \<Longrightarrow>
     unread (fst (fold (fillBoard_row w) [0..<k] s)) = drop (p + k * (w + 1)) (contents (fst s)) \<and>
     contents (fst (fold (fillBoard_row w) [0..<k] s)) = contents (fst s) \<and>
     map length (snd (fold (fillBoard_row w) [0..<k] s)) = map length (snd s) \<and>
     (\<forall>r c. snd (fold (fillBoard_row w) [0..<k] s) ! r ! c =
        (if r < k \<and> c < w then filled (byte_at (contents (fst s)) (p + r * (w + 1) + c))
         else snd s ! r ! c))"
proof (induction k)
  case 0
  then show ?case using assms by simp
next
  case (Suc k)
  let ?s = "fold (fillBoard_row w) [0..<k] s"
  have IH: "unread (fst ?s) = drop (p + k * (w + 1)) (contents (fst s))"
    "contents (fst ?s) = contents (fst s)"
    "map length (snd ?s) = map length (snd s)"
    "\<And>r c. snd ?s ! r ! c =
        (if r < k \<and> c < w then filled (byte_at (contents (fst s)) (p + r * (w + 1) + c))
         else snd s ! r ! c)"
    using Suc by simp_all
  have k: "k < length (snd s)" using Suc.prems by simp
  have u: "unread (fst ?s) = drop (p + k * (w + 1)) (contents (fst ?s))" using IH(1,2) by simp
  have row: "k < length (snd ?s)" using map_length_eqD(1) [OF IH(3)] k by simp
  have len: "length (snd ?s ! k) = w"
    using map_length_eqD(2) [OF IH(3) k] assms(2) k by (simp add: list_all_length)
  note R = fillBoard_row_props [OF u row len]
  have step: "fold (fillBoard_row w) [0..<Suc k] s = fillBoard_row w k ?s" by simp
  have R1: "unread (fst (fillBoard_row w k ?s)) =
      drop (p + k * (w + 1) + (w + 1)) (contents (fst ?s))"
    and R2: "contents (fst (fillBoard_row w k ?s)) = contents (fst ?s)"
    and R3: "map length (snd (fillBoard_row w k ?s)) = map length (snd ?s)"
    and R4: "\<And>r c. snd (fillBoard_row w k ?s) ! r ! c =
        (if r = k \<and> c < w then filled (byte_at (contents (fst ?s)) (p + k * (w + 1) + c))
         else snd ?s ! r ! c)"
    using R by blast+
  have pos: "p + k * (w + 1) + (w + 1) = p + Suc k * (w + 1)" by simp
  have cells: "snd (fillBoard_row w k ?s) ! r ! c =
        (if r < Suc k \<and> c < w then filled (byte_at (contents (fst s)) (p + r * (w + 1) + c))
         else snd s ! r ! c)" for r c
    unfolding R4 [of r c] IH(2) IH(4) [of r c] by (auto simp: less_Suc_eq)
  show ?case unfolding step
  proof (intro conjI allI)
    show "unread (fst (fillBoard_row w k ?s)) = drop (p + Suc k * (w + 1)) (contents (fst s))"
      unfolding R1 pos IH(2) ..
    show "contents (fst (fillBoard_row w k ?s)) = contents (fst s)"
      unfolding R2 IH(2) ..
    show "map length (snd (fillBoard_row w k ?s)) = map length (snd s)"
      unfolding R3 IH(3) ..
    show "snd (fillBoard_row w k ?s) ! r ! c =
        (if r < Suc k \<and> c < w then filled (byte_at (contents (fst s)) (p + r * (w + 1) + c))
         else snd s ! r ! c)" for r c
      by (rule cells)
  qed
qed

lemma fillBoard_eq:
  "fillBoard f h w =
     map (\<lambda>r. map (\<lambda>c. filled (byte_at (contents f) (r * (unat w + 1) + c))) [0..<unat w])
       [0..<unat h]"
proof -
  let ?s = "(rewind f, calloc_board (unat h) (unat w))"
  have u: "unread (fst ?s) = drop 0 (contents (fst ?s))" by (simp add: rewind_def)
  have a: "list_all (\<lambda>row. length row = unat w) (snd ?s)"
    by (simp add: calloc_board_def list_all_length)
  have k: "unat h \<le> length (snd ?s)" by (simp add: calloc_board_def)
  note F = fillBoard_rows [OF u a k]
  have c: "contents (fst ?s) = contents f" by (simp add: rewind_def)
  have ml: "map length (fillBoard f h w) = replicate (unat h) (unat w)"
    using F by (simp add: fillBoard_def calloc_board_def)
  have len: "length (fillBoard f h w) = unat h" using ml by (metis length_map length_replicate)
  have cells: "fillBoard f h w ! r ! c = filled (byte_at (contents f) (r * (unat w + 1) + c))"
    if "r < unat h" "c < unat w" for r c
    using F that c by (simp add: fillBoard_def)
  show ?thesis
  proof (rule nth_equalityI)
    show "length (fillBoard f h w) = length (map (\<lambda>r. map (\<lambda>c. filled (byte_at (contents f)
        (r * (unat w + 1) + c))) [0..<unat w]) [0..<unat h])"
      using len by simp
    fix r assume "r < length (fillBoard f h w)"
    then have r: "r < unat h" using len by simp
    have lr: "length (fillBoard f h w ! r) = unat w"
      using ml r len by (metis nth_map nth_replicate)
    show "fillBoard f h w ! r = map (\<lambda>r. map (\<lambda>c. filled (byte_at (contents f)
        (r * (unat w + 1) + c))) [0..<unat w]) [0..<unat h] ! r"
      by (rule nth_equalityI) (simp_all add: lr r cells)
  qed
qed

section \<open>Claims about the start-up sequence\<close>

lemma run_setup_error:
  "checkConfigFile file = Inl e \<Longrightarrow> run_setup file = Inl e"
  by (simp add: run_setup_def)

lemma inconsistent_completed_line:
  assumes "list_all is_marker l0" and "uniform_lines (length l0) ls"
    and "list_all is_marker l" and "length l \<noteq> length l0"
    and "length l0 < 2147483648" and "length l < 2147483648"
  shows "checkConfigFile (Some (terminated_lines (l0 # ls) @ l @ CHR 0x0A # rest)) =
     Inl InconsistentColumnCount"
  unfolding checkConfigFile_Some loop_header [OF assms(1,2)]
  using loop_bad_line [OF assms(3,4,5,6)] by simp

lemma inconsistent_final_line:
  assumes "list_all is_marker l0" and "uniform_lines (length l0) ls"
    and "list_all is_marker l" and "length l \<noteq> length l0"
    and "length l0 < 2147483648" and "length l < 2147483648"
  shows "checkConfigFile (Some (terminated_lines (l0 # ls) @ l)) = Inl InconsistentColumnCount"
  unfolding checkConfigFile_Some loop_header [OF assms(1,2)]
  using assms(4) c_int_succ_eq [OF assms(5,6)] by (simp add: loop_last_line [OF assms(3)])

lemma length_terminated_lines_Cons:
  "length (terminated_lines (l0 # ls) @ l) =
     length l0 + 1 + length (terminated_lines ls) + length l"
  by (simp add: terminated_lines_def)

text \<open>
  The claim C4 as stated, for every input, is false: the column counts are \<^verbatim>\<open>int\<close>s. After
  the line \<open>#\<close>, a completed line of \<open>2^32 + 1\<close> markers brings the counter of the current
  line to the same 32-bit value as the expected count, and the input is accepted as a
  board of three rows and one column.
\<close>

lemma wrapped_line_accepted:
  assumes "3 \<le> n" and "(of_nat n :: c_int) = 1"
  shows "run_setup (Some (''#\<newline>'' @ replicate n (CHR ''#'') @ ''\<newline>#'')) =
     Inr (3, 1, board_of [''#'', ''#'', ''#''])"
proof -
  let ?l = "replicate n (CHR ''#'')"
  let ?t = "''#\<newline>'' @ ?l @ ''\<newline>#''"
  let ?f = "(stream ?t [])\<lparr>eof_indicator := True\<rparr>"
  have m: "list_all is_marker ?l" by (simp add: list_all_length is_marker_def)
  have line: "checkConfigFile_loop (stream ?t (?l @ ''\<newline>#'')) 2 0 1 =
      checkConfigFile_loop (stream ?t ''\<newline>#'') 2 1 1"
    using loop_markers [OF m, of ?t "''\<newline>#''" 2 0 1] assms(2) by simp
  have first: "checkConfigFile_loop (stream ?t ?t) 0 0 0 =
      checkConfigFile_loop (stream ?t (?l @ ''\<newline>#'')) 2 0 1"
    by (simp add: loop_marker loop_newline is_marker_def)
  have final: "checkConfigFile_loop (stream ?t ''\<newline>#'') 2 1 1 = Inr (?f, 2, 2)"
    by (simp add: loop_marker loop_newline loop_end is_marker_def)
  have "checkConfigFile_loop (stream ?t ?t) 0 0 0 = Inr (?f, 2, 2)"
    using first line final by simp
  then have chk: "checkConfigFile (Some ?t) = Inr (?f, 3, 1)"
    by (simp add: checkConfigFile_Some)
  have up: "[0..<unat (3 :: 8 word)] = [0, 1, 2]" "[0..<unat (1 :: 8 word)] = [0]"
    by (simp_all add: upt_rec)
  have b: "byte_at ?t 0 = CHR ''#''" "byte_at ?t 2 = CHR ''#''" "byte_at ?t 4 = CHR ''#''"
    using assms(1) by (simp_all add: byte_at_def nth_append nth_Cons')
  have b': "byte_at ?t (Suc (Suc 0)) = CHR ''#''"
    using b(2) by (simp add: numeral_2_eq_2)
  have fill: "fillBoard ?f 3 1 = board_of [''#'', ''#'', ''#'']"
    unfolding fillBoard_eq up list.map using b b' by (simp add: stream_def board_of_def)
  show ?thesis unfolding run_setup_def chk using fill by simp
qed

theorem long_line_accepted:
  "length (replicate 4294967297 (CHR ''#'')) \<noteq> length ''#'' \<and>
   run_setup (Some (''#\<newline>'' @ replicate 4294967297 (CHR ''#'') @ ''\<newline>#'')) =
     Inr (3, 1, board_of [''#'', ''#'', ''#''])"
proof -
  have a: "3 \<le> (4294967297 :: nat)" by simp
  have b: "(of_nat 4294967297 :: c_int) = 1" by simp
  have c: "length (replicate 4294967297 (CHR ''#'')) \<noteq> length ''#''"
    by (simp only: length_replicate list.size)
  show ?thesis using c wrapped_line_accepted [OF a b] by (rule conjI)
qed

text \<open>
  Claim C4, amended. The input \<open>##\<newline>#\<newline>\<close> is refused with \<open>InconsistentColumnCount\<close>. In
  general, let the first line \<open>l0\<close> and the lines \<open>ls\<close> after it consist of markers, each
  be followed by a line terminator, and all have the length of \<open>l0\<close> (so no error occurs
  before), let the next line \<open>l\<close> consist of markers and have another length, and let the
  input up to the end of \<open>l\<close> be shorter than \<open>2^31\<close> bytes (so no counter overflows). If
  \<open>l\<close> is completed by a terminator, the input is refused with
  \<open>InconsistentColumnCount\<close>, whatever follows; and if the input ends after \<open>l\<close>, the
  unterminated final line is refused in the same way.
\<close>

theorem inconsistent_column_count:
  assumes "list_all is_marker l0" and "uniform_lines (length l0) ls"
    and "list_all is_marker l" and "length l \<noteq> length l0"
    and "length (terminated_lines (l0 # ls) @ l) < 2147483648"
  shows "run_setup (Some ''##\<newline>#\<newline>'') = Inl InconsistentColumnCount \<and>
         run_setup (Some (terminated_lines (l0 # ls) @ l @ CHR 0x0A # rest)) =
           Inl InconsistentColumnCount \<and>
         run_setup (Some (terminated_lines (l0 # ls) @ l)) = Inl InconsistentColumnCount"
proof -
  have ex: "checkConfigFile (Some ''##\<newline>#\<newline>'') = Inl InconsistentColumnCount"
    by (simp add: checkConfigFile_Some loop_marker loop_newline is_marker_def)
  have len: "length l0 < 2147483648" "length l < 2147483648"
    using assms(5) unfolding length_terminated_lines_Cons by simp_all
  show ?thesis
    using ex inconsistent_completed_line [OF assms(1-4) len]
      inconsistent_final_line [OF assms(1-4) len]
    by (simp add: run_setup_error)
qed

text \<open>Witness for C4 as amended: two lines of two markers, then a line of one.\<close>

theorem inconsistent_column_count_witness:
  "list_all is_marker ''##'' \<and> uniform_lines (length ''##'') [''##''] \<and>
   list_all is_marker ''#'' \<and> length ''#'' \<noteq> length ''##'' \<and>
   length (terminated_lines [''##'', ''##''] @ ''#'') < 2147483648 \<and>
   terminated_lines [''##'', ''##''] @ ''#'' @ CHR 0x0A # ''..'' = ''##\<newline>##\<newline>#\<newline>..'' \<and>
   run_setup (Some ''##\<newline>##\<newline>#\<newline>..'') = Inl InconsistentColumnCount \<and>
   run_setup (Some ''##\<newline>##\<newline>#'') = Inl InconsistentColumnCount"
proof -
  have a: "list_all is_marker ''##''" "uniform_lines (length ''##'') [''##'']"
    "list_all is_marker ''#''" "length ''#'' \<noteq> length ''##''"
    "length (terminated_lines [''##'', ''##''] @ ''#'') < 2147483648"
    by (simp_all add: is_marker_def uniform_lines_def terminated_lines_def)
  have t: "terminated_lines [''##'', ''##''] @ ''#'' @ CHR 0x0A # ''..'' = ''##\<newline>##\<newline>#\<newline>..''"
    "terminated_lines [''##'', ''##''] @ ''#'' = ''##\<newline>##\<newline>#''"
    by (simp_all add: terminated_lines_def)
  show ?thesis
    using inconsistent_column_count [OF a, of "''..''"] a unfolding t by simp
qed

lemma unat_u8: "n \<le> 255 \<Longrightarrow> unat (of_nat n :: 8 word) = n"
  by (simp add: unat_of_nat take_bit_nat_eq_self)

lemma config_text_nth:
  "uniform_lines m rows \<Longrightarrow> r < length rows \<Longrightarrow> c < m \<Longrightarrow>
     r * (m + 1) + c < length (config_text rows) \<and>
     config_text rows ! (r * (m + 1) + c) = rows ! r ! c"
proof (induction rows arbitrary: r rule: config_text.induct)
  case 1
  then show ?case by simp
next
  case (2 l)
  then show ?case by (simp add: uniform_lines_def)
next
  case (3 l l' ls)
  have l: "length l = m" and rest: "uniform_lines m (l' # ls)"
    using "3.prems"(1) by (simp_all add: uniform_lines_def)
  show ?case
  proof (cases r)
    case 0
    then show ?thesis using l "3.prems"(3) by (simp add: nth_append)
  next
    case (Suc r')
    then have r': "r' < length (l' # ls)" using "3.prems"(2) by simp
    note IH = "3.IH" [OF rest r' "3.prems"(3)]
    have idx: "r * (m + 1) + c = length l + Suc (r' * (m + 1) + c)"
      using Suc l by simp
    have unf: "config_text (l # l' # ls) = l @ CHR 0x0A # config_text (l' # ls)" by simp
    have "(l @ CHR 0x0A # config_text (l' # ls)) ! (length l + Suc (r' * (m + 1) + c)) =
        config_text (l' # ls) ! (r' * (m + 1) + c)"
      by (simp only: nth_append_length_plus nth_Cons_Suc)
    moreover have "length l + Suc (r' * (m + 1) + c) < length (l @ CHR 0x0A # config_text (l' # ls))"
      using IH by simp
    ultimately show ?thesis unfolding idx unf using IH Suc by simp
  qed
qed

lemma wellformed_loop:
  assumes "uniform_lines m rows" and "2 \<le> length rows"
  shows "checkConfigFile_loop (stream t (config_text rows)) 0 0 0 =
     Inr ((stream t [])\<lparr>eof_indicator := True\<rparr>, of_nat m + 1, of_nat (length rows) - 1)"
proof -
  obtain l0 rest where r0: "rows = l0 # rest" using assms(2) by (cases rows) auto
  then have "rest \<noteq> []" using assms(2) by auto
  then obtain ls l where r1: "rest = ls @ [l]" by (metis rev_exhaust)
  have rows: "rows = (l0 # ls) @ [l]" using r0 r1 by simp
  have u: "list_all is_marker l0" "length l0 = m" "uniform_lines (length l0) ls"
    "list_all is_marker l" "length l = m"
    using assms(1) unfolding rows by (simp_all add: uniform_lines_def)
  have text_eq: "config_text rows = terminated_lines (l0 # ls) @ l"
    unfolding rows by (rule config_text_snoc)
  show ?thesis unfolding text_eq loop_header [OF u(1,3)]
    using u(2,5) by (simp add: loop_last_line [OF u(4)] rows)
qed

lemma board_of_valid_alive:
  "r < length rows \<Longrightarrow> c < length (rows ! r) \<Longrightarrow>
     is_alive (board_of rows ! r ! c) = (rows ! r ! c = CHR ''#'')"
  by (simp add: board_of_def is_alive_def filled_def)

text \<open>
  The claim C3 as stated is false: a text whose every line, the last one too, is followed by
  a line terminator is refused, because the end of the input is then met on an empty line.
\<close>

theorem terminated_text_refused:
  "terminated_lines [''##'', ''##''] = ''##\<newline>##\<newline>'' \<and>
   run_setup (Some ''##\<newline>##\<newline>'') = Inl InconsistentColumnCount"
proof -
  have "checkConfigFile (Some ''##\<newline>##\<newline>'') = Inl InconsistentColumnCount"
    by (simp add: checkConfigFile_Some loop_marker loop_newline loop_end is_marker_def)
  then show ?thesis by (simp add: run_setup_error terminated_lines_def)
qed

text \<open>
  A text of a single line (shorter than \<open>2^31\<close> bytes) is refused as well, terminated or
  not: the end of the input is met before any column count is set, or on an empty line.
\<close>

lemma single_line_refused:
  assumes "list_all is_marker l" and "length l < 2147483648"
  shows "run_setup (Some l) = Inl InconsistentColumnCount"
proof -
  have "checkConfigFile (Some l) = Inl InconsistentColumnCount"
    using c_int_succ_nonzero [OF assms(2)]
    by (simp add: checkConfigFile_Some loop_last_line [OF assms(1)])
  then show ?thesis by (rule run_setup_error)
qed

text \<open>
  Claim C3, amended. For \<open>N\<close> lines with \<open>2 \<le> N \<le> 255\<close>, each of exactly \<open>M \<le> 255\<close>
  markers, written with a line terminator after every line but the last, the start-up
  sequence succeeds with height \<open>N\<close>, width \<open>M\<close> and the board that holds the source
  character of row \<open>r\<close>, column \<open>c\<close> in its cell \<open>(r, c)\<close>: the cell is alive exactly when
  that character is \<open>#\<close>.
\<close>

theorem run_setup_wellformed:
  assumes "2 \<le> length rows" and "length rows \<le> 255" and "m \<le> 255"
    and "uniform_lines m rows"
  shows "run_setup (Some (config_text rows)) =
           Inr (of_nat (length rows), of_nat m, board_of rows) \<and>
         unat (of_nat (length rows) :: 8 word) = length rows \<and>
         unat (of_nat m :: 8 word) = m \<and>
         (\<forall>r c. r < length rows \<and> c < m \<longrightarrow>
            is_alive (board_of rows ! r ! c) = (rows ! r ! c = CHR ''#''))"
proof -
  let ?t = "config_text rows"
  let ?f = "(stream ?t [])\<lparr>eof_indicator := True\<rparr>"
  have chk: "checkConfigFile (Some ?t) =
      Inr (?f, of_nat (length rows), of_nat m)"
    unfolding checkConfigFile_Some wellformed_loop [OF assms(4,1)]
    by (simp add: ucast_c_int_of_nat)
  have uh: "unat (of_nat (length rows) :: 8 word) = length rows"
    and uw: "unat (of_nat m :: 8 word) = m"
    using assms(2,3) by (simp_all add: unat_u8)
  have cont: "contents ?f = ?t" by (simp add: stream_def)
  have len: "\<And>r. r < length rows \<Longrightarrow> length (rows ! r) = m"
    using assms(4) by (simp add: uniform_lines_def list_all_length)
  have fill: "fillBoard ?f (of_nat (length rows)) (of_nat m) = board_of rows"
    unfolding fillBoard_eq uh uw cont board_of_def
  proof (rule nth_equalityI)
    show "length (map (\<lambda>r. map (\<lambda>c. filled (byte_at ?t (r * (m + 1) + c))) [0..<m])
        [0..<length rows]) = length (map (map filled) rows)" by simp
    fix r
    assume "r < length (map (\<lambda>r. map (\<lambda>c. filled (byte_at ?t (r * (m + 1) + c))) [0..<m])
        [0..<length rows])"
    then have r: "r < length rows" by simp
    have "map (\<lambda>c. filled (byte_at ?t (r * (m + 1) + c))) [0..<m] = map filled (rows ! r)"
    proof (rule nth_equalityI)
      show "length (map (\<lambda>c. filled (byte_at ?t (r * (m + 1) + c))) [0..<m]) =
          length (map filled (rows ! r))" using len [OF r] by simp
      fix c assume "c < length (map (\<lambda>c. filled (byte_at ?t (r * (m + 1) + c))) [0..<m])"
      then have c: "c < m" by simp
      show "map (\<lambda>c. filled (byte_at ?t (r * (m + 1) + c))) [0..<m] ! c =
          map filled (rows ! r) ! c"
        using config_text_nth [OF assms(4) r c] c len [OF r] by (simp add: byte_at_def)
    qed
    then show "map (\<lambda>r. map (\<lambda>c. filled (byte_at ?t (r * (m + 1) + c))) [0..<m])
        [0..<length rows] ! r = map (map filled) rows ! r"
      using r by simp
  qed
  have alive: "\<forall>r c. r < length rows \<and> c < m \<longrightarrow>
      is_alive (board_of rows ! r ! c) = (rows ! r ! c = CHR ''#'')"
    using len by (simp add: board_of_valid_alive)
  show ?thesis using chk fill uh uw alive by (simp add: run_setup_def)
qed

lemma loop_never_EmptyInput:
  "checkConfigFile_loop f lc cc nrows \<noteq> Inl EmptyInput"
proof (induction "length (unread f)" arbitrary: f lc cc nrows rule: less_induct)
  case less
  have IH: "checkConfigFile_loop (snd (fgetc f)) a b c \<noteq> Inl EmptyInput"
    if "int_to_char (fst (fgetc f)) \<noteq> CHR 0xFF" for a b c
    using less [OF fgetc_progress [OF that]] .
  show ?case
    by (subst checkConfigFile_loop.simps) (auto simp: Let_def IH)
qed

lemma run_setup_never_EmptyInput: "run_setup src \<noteq> Inl EmptyInput"
proof (cases src)
  case None
  then show ?thesis by (simp add: run_setup_def checkConfigFile_def fopen_def)
next
  case (Some t)
  show ?thesis
    using loop_never_EmptyInput [of "stream t t" 0 0 0]
    by (auto simp: run_setup_def Some checkConfigFile_Some split: sum.splits)
qed

text \<open>Witness for C3 as amended: the two lines \<open>.#\<close> and \<open>#.\<close>.\<close>

theorem run_setup_wellformed_witness:
  "2 \<le> length [''.#'', ''#.''] \<and> length [''.#'', ''#.''] \<le> 255 \<and> (2 :: nat) \<le> 255 \<and>
   uniform_lines 2 [''.#'', ''#.''] \<and> config_text [''.#'', ''#.''] = ''.#\<newline>#.'' \<and>
   run_setup (Some ''.#\<newline>#.'') = Inr (2, 2, board_of [''.#'', ''#.'']) \<and>
   \<not> is_alive (board_of [''.#'', ''#.''] ! 0 ! 0) \<and> is_alive (board_of [''.#'', ''#.''] ! 0 ! 1)"
proof -
  have a: "2 \<le> length [''.#'', ''#.'']" "length [''.#'', ''#.''] \<le> 255" "(2 :: nat) \<le> 255"
    "uniform_lines 2 [''.#'', ''#.'']"
    by (simp_all add: uniform_lines_def is_marker_def)
  have t: "config_text [''.#'', ''#.''] = ''.#\<newline>#.''" by simp
  have r: "run_setup (Some ''.#\<newline>#.'') = Inr (2, 2, board_of [''.#'', ''#.''])"
    using run_setup_wellformed [OF a] unfolding t by simp
  have c: "\<not> is_alive (board_of [''.#'', ''#.''] ! 0 ! 0)" "is_alive (board_of [''.#'', ''#.''] ! 0 ! 1)"
    by (simp_all add: board_of_def is_alive_def filled_def)
  show ?thesis using a t r c by simp
qed

text \<open>
  The claim C6 as stated is false: the input of zero characters is refused, but not with
  \<open>EmptyInput\<close>.
\<close>

theorem empty_input_not_EmptyInput: "run_setup (Some []) \<noteq> Inl EmptyInput"
  by (simp add: run_setup_def checkConfigFile_Some loop_end)

text \<open>
  Claim C6, amended. The input of zero characters is refused with
  \<open>InconsistentColumnCount\<close>: the end of the input is met while no column count is set.
  No input at all is refused with \<open>EmptyInput\<close>.
\<close>

theorem empty_input_inconsistent:
  "run_setup (Some []) = Inl InconsistentColumnCount \<and> (\<forall>src. run_setup src \<noteq> Inl EmptyInput)"
  by (simp add: run_setup_never_EmptyInput) (simp add: run_setup_def checkConfigFile_Some loop_end)

text \<open>
  Claim C5 at the input of the five bytes \<open>#\<close>, line terminator, \<open>#\<close>, \<open>0xFF\<close>, \<open>x\<close>. The
  byte \<open>0xFF\<close> is neither a marker nor the terminator, but stored in a \<^verbatim>\<open>char\<close> it equals
  \<^verbatim>\<open>EOF\<close>: the input is accepted as a board of two rows and one column, and what follows
  the byte is never read.
\<close>

theorem byte_0xFF_accepted:
  "run_setup (Some [CHR ''#'', CHR 0x0A, CHR ''#'', CHR 0xFF, CHR ''x'']) =
     Inr (2, 1, board_of [''#'', ''#''])"
proof -
  let ?t = "[CHR ''#'', CHR 0x0A, CHR ''#'', CHR 0xFF, CHR ''x'']"
  have chk: "checkConfigFile (Some ?t) = Inr (stream ?t ''x'', 2, 1)"
    by (simp add: checkConfigFile_Some loop_marker loop_newline loop_0xFF is_marker_def)
  have up: "[0..<unat (2 :: 8 word)] = [0, 1]" "[0..<unat (1 :: 8 word)] = [0]"
    by (simp_all add: upt_rec)
  have fill: "fillBoard (stream ?t ''x'') 2 1 = board_of [''#'', ''#'']"
    unfolding fillBoard_eq up list.map
    by (simp add: stream_def byte_at_def board_of_def)
  show ?thesis by (simp add: run_setup_def chk fill)
qed

text \<open>
  For every other byte the claim C5 holds: after consistent lines of markers and markers of
  a further line, a byte that is neither a marker, nor the terminator, nor \<open>0xFF\<close> is
  reported as the invalid character.
\<close>

lemma invalid_character_reported:
  assumes "uniform_lines m ls" and "list_all is_marker l"
    and "\<not> is_marker x" and "x \<noteq> CHR 0x0A" and "x \<noteq> CHR 0xFF"
  shows "run_setup (Some (terminated_lines ls @ l @ x # rest)) = Inl (InvalidCharacter x)"
proof -
  have tail: "checkConfigFile_loop (stream t (l @ x # rest)) lc 0 nrows = Inl (InvalidCharacter x)"
    for t lc nrows
    by (simp add: loop_markers [OF assms(2)] loop_invalid [OF assms(3,4,5)])
  have "checkConfigFile (Some (terminated_lines ls @ l @ x # rest)) = Inl (InvalidCharacter x)"
  proof (cases ls)
    case Nil
    then show ?thesis by (simp add: checkConfigFile_Some terminated_lines_def tail)
  next
    case (Cons l0 ls')
    then have u: "list_all is_marker l0" "uniform_lines (length l0) ls'"
      using assms(1) by (auto simp: uniform_lines_def)
    show ?thesis unfolding checkConfigFile_Some Cons loop_header [OF u]
      by (simp add: tail)
  qed
  then show ?thesis by (rule run_setup_error)
qed

lemma invalid_character_example:
  "run_setup (Some ''#x\<newline>.#\<newline>'') = Inl (InvalidCharacter (CHR ''x''))"
  using invalid_character_reported [of 0 "[]" "''#''" "CHR ''x''" "''\<newline>.#\<newline>''"]
  by (simp add: uniform_lines_def terminated_lines_def is_marker_def)

text \<open>
  Claim C7 at two inputs. The input of one line terminator is accepted with width 0. The
  input of 257 lines of one marker is accepted with height 1: the count of 257 lines is
  narrowed to eight bits.
\<close>

theorem dimensions_not_true_counts:
  "run_setup (Some ''\<newline>'') = Inr (2, 0, [[], []]) \<and>
   length (replicate 257 ''#'') = 257 \<and>
   run_setup (Some (config_text (replicate 257 ''#''))) = Inr (1, 1, board_of [''#''])"
proof -
  have a: "run_setup (Some ''\<newline>'') = Inr (2, 0, [[], []])"
  proof -
    have chk: "checkConfigFile (Some ''\<newline>'') =
        Inr ((stream ''\<newline>'' [])\<lparr>eof_indicator := True\<rparr>, 2, 0)"
      by (simp add: checkConfigFile_Some loop_newline loop_end)
    have up: "[0..<unat (2 :: 8 word)] = [0, 1]" "[0..<unat (0 :: 8 word)] = []"
      by (simp_all add: upt_rec)
    have fill: "fillBoard ((stream ''\<newline>'' [])\<lparr>eof_indicator := True\<rparr>) 2 0 = [[], []]"
      unfolding fillBoard_eq up list.map ..
    show ?thesis unfolding run_setup_def chk using fill by simp
  qed
  let ?rows = "replicate 257 ''#''"
  let ?t = "config_text ?rows"
  have u: "uniform_lines 1 ?rows" by (simp add: uniform_lines_def list_all_length is_marker_def)
  have n: "2 \<le> length ?rows" by simp
  have chk: "checkConfigFile (Some ?t) = Inr ((stream ?t [])\<lparr>eof_indicator := True\<rparr>, 1, 1)"
    unfolding checkConfigFile_Some wellformed_loop [OF u n] by simp
  have b0: "byte_at ?t 0 = CHR ''#''"
    using config_text_nth [OF u, of 0 0] by (simp add: byte_at_def)
  have up: "[0..<unat (1 :: 8 word)] = [0]" by (simp add: upt_rec)
  have fill: "fillBoard ((stream ?t [])\<lparr>eof_indicator := True\<rparr>) 1 1 = board_of [''#'']"
    unfolding fillBoard_eq up list.map using b0 by (simp add: stream_def board_of_def)
  have b: "run_setup (Some ?t) = Inr (1, 1, board_of [''#''])"
    unfolding run_setup_def chk using fill by simp
  show ?thesis using a b by simp
qed

text \<open>
  Claim C10 at the input of three lines of 384 markers. The width is narrowed to 128, so
  \<^verbatim>\<open>fillBoard\<close> reads rows of 129 bytes and stores the line terminator at position 384 in
  the cell \<open>(2, 126)\<close>: the board built is not valid.
\<close>

theorem terminator_stored_in_cell:
  "\<exists>board. run_setup (Some (config_text (replicate 3 (replicate 384 (CHR ''#''))))) =
       Inr (3, 128, board) \<and>
     current_value (board ! 2 ! 126) = CHR 0x0A \<and> \<not> valid_board board"
proof -
  let ?l = "replicate 384 (CHR ''#'')"
  let ?rows = "replicate 3 ?l"
  let ?t = "config_text ?rows"
  let ?f = "(stream ?t [])\<lparr>eof_indicator := True\<rparr>"
  have u: "uniform_lines 384 ?rows" by (simp add: uniform_lines_def list_all_length is_marker_def)
  have n: "2 \<le> length ?rows" by simp
  have chk: "checkConfigFile (Some ?t) = Inr (?f, 3, 128)"
    unfolding checkConfigFile_Some wellformed_loop [OF u n] by simp
  have t: "?t = ?l @ CHR 0x0A # (?l @ CHR 0x0A # ?l)"
    by (simp add: numeral_3_eq_3)
  have b: "byte_at ?t 384 = CHR 0x0A"
  proof -
    have "(?l @ CHR 0x0A # (?l @ CHR 0x0A # ?l)) ! (length ?l + 0) = CHR 0x0A"
      by (simp only: nth_append_length_plus nth_Cons_0)
    then show ?thesis unfolding t by (simp add: byte_at_def)
  qed
  have cell: "fillBoard ?f 3 128 ! 2 ! 126 = filled (CHR 0x0A)"
    unfolding fillBoard_eq using b by (simp add: stream_def)
  have len: "length (fillBoard ?f 3 128) = 3" "length (fillBoard ?f 3 128 ! 2) = 128"
    unfolding fillBoard_eq by simp_all
  have inv: "\<not> valid_board (fillBoard ?f 3 128)"
  proof
    assume "valid_board (fillBoard ?f 3 128)"
    then have "is_marker (current_value (fillBoard ?f 3 128 ! 2 ! 126))"
      using len by (simp add: valid_board_def list_all_length)
    then show False unfolding cell by (simp add: filled_def is_marker_def)
  qed
  have "run_setup (Some ?t) = Inr (3, 128, fillBoard ?f 3 128)"
    unfolding run_setup_def chk by simp
  then show ?thesis using cell inv by (auto simp: filled_def)
qed

text \<open>
  The second half of C10 holds: \<^verbatim>\<open>updateBoard\<close> leaves one of the two markers in every
  cell, whatever the cells held before.
\<close>

lemma updateBoard_valid:
  assumes "wf_board b h w"
  shows "valid_board (updateBoard b h w)"
  unfolding updateBoard_spec_step [OF assms]
  by (simp add: valid_board_def spec_step_def spec_cell_def Let_def list_all_iff
      next_value_marker)

lemma board_of_valid:
  "list_all (list_all is_marker) rows \<Longrightarrow> valid_board (board_of rows)"
  by (simp add: valid_board_def board_of_def filled_def list_all_iff)

text \<open>
  The board \<^verbatim>\<open>fillBoard\<close> builds has the dimensions that \<^verbatim>\<open>run\<close> passes on to
  \<^verbatim>\<open>updateBoard\<close>, the two \<^verbatim>\<open>uint8_t\<close> values converted to \<^verbatim>\<open>int\<close>.
\<close>

lemma uint_u8_int: "0 \<le> uint (h :: 8 word) \<and> uint h \<le> 2147483647"
proof -
  have "uint h < 2 ^ LENGTH(8)" by (rule uint_lt2p)
  then have "uint h < 256" by simp
  then show ?thesis by simp
qed

lemma fillBoard_wf: "wf_board (fillBoard f h w) (uint h) (uint w)"
proof -
  have len: "length (fillBoard f h w) = unat h" by (simp add: fillBoard_eq)
  have rows: "length (fillBoard f h w ! r) = unat w" if "r < unat h" for r
    using that by (simp add: fillBoard_eq)
  have n: "nat (uint h) = unat h" "nat (uint w) = unat w" by simp_all
  show ?thesis
    unfolding wf_board_def list_all_length n len
    using uint_u8_int [of h] uint_u8_int [of w] rows by blast
qed

end
